theory Spec2Isabelle
  imports Main "HOL-Library.AList"
begin

section \<open>Paths and glob patterns\<close>

text \<open>
  A path is the list of its segments (\<open>source/img/a.png\<close> is
  \<open>[''source'', ''img'', ''a.png'']\<close>); file contents are byte strings.  The file
  system holds files only: a directory exists when some file lies below it.
\<close>

type_synonym path = "string list"
type_synonym contents = string
type_synonym files = "(path \<times> contents) list"

fun split_on :: "char \<Rightarrow> string \<Rightarrow> string list" where
  "split_on d [] = [[]]"
| "split_on d (c # cs) =
     (if c = d then [] # split_on d cs
      else (case split_on d cs of [] \<Rightarrow> [[c]] | s # ss \<Rightarrow> (c # s) # ss))"

definition segments :: "string \<Rightarrow> path" where
  "segments s = filter (\<lambda>x. x \<noteq> []) (split_on CHR ''/'' s)"

text \<open>
  The glob strings of the gulpfile use literal segments, \<open>*\<close>, \<open>**\<close> and one brace
  group \<open>{a,b,c}\<close>.  \<open>*\<close> stays inside one segment, \<open>**\<close> stands for any number of
  directories, and neither matches a name that starts with a dot (the \<open>dot: false\<close>
  default of the glob library).
\<close>

definition expand_braces :: "string \<Rightarrow> string list" where
  "expand_braces s =
     (let pre = takeWhile (\<lambda>c. c \<noteq> CHR ''{'') s;
          rest = dropWhile (\<lambda>c. c \<noteq> CHR ''{'') s
      in if rest = [] \<or> CHR ''}'' \<notin> set rest then [s]
         else (let body = takeWhile (\<lambda>c. c \<noteq> CHR ''}'') (tl rest);
                   post = tl (dropWhile (\<lambda>c. c \<noteq> CHR ''}'') (tl rest))
               in if CHR '','' \<notin> set body then [s]
                  else map (\<lambda>a. pre @ a @ post) (split_on CHR '','' body)))"

fun wild :: "string \<Rightarrow> string \<Rightarrow> bool" where
  "wild [] s = (s = [])"
| "wild (p # ps) [] = (p = CHR ''*'' \<and> wild ps [])"
| "wild (p # ps) (c # cs) =
     (if p = CHR ''*'' then wild ps (c # cs) \<or> wild (p # ps) cs
      else p = c \<and> wild ps cs)"

definition hidden :: "string \<Rightarrow> bool" where
  "hidden s = (take 1 s = ''.'')"

definition seg_match :: "string \<Rightarrow> string \<Rightarrow> bool" where
  "seg_match pat s =
     list_ex (\<lambda>a. wild a s \<and> (if hidden s then hidden a else True)) (expand_braces pat)"

fun match_segs :: "string list \<Rightarrow> path \<Rightarrow> bool" where
  "match_segs [] ss = (ss = [])"
| "match_segs (p # ps) [] = (p = ''**'' \<and> match_segs ps [])"
| "match_segs (p # ps) (s # ss) =
     (if p = ''**'' then match_segs ps (s # ss) \<or> (\<not> hidden s \<and> match_segs (p # ps) ss)
      else seg_match p s \<and> match_segs ps ss)"

definition glob_match :: "string \<Rightarrow> path \<Rightarrow> bool" where
  "glob_match g p = match_segs (segments g) p"

definition is_glob :: "string \<Rightarrow> bool" where
  "is_glob g = list_ex (\<lambda>c. c \<in> set ''*?[]{}()!'') g"

definition glob_parent :: "string \<Rightarrow> path" where
  "glob_parent g =
     (if is_glob g then takeWhile (\<lambda>seg. \<not> is_glob seg) (segments g)
      else butlast (segments g))"

text \<open>\<open>path.extname\<close>: from the last dot of a name to its end, nothing when the only
  dot is the first character; \<open>replace_ext\<close> and \<open>add_suffix\<close> act on the last
  segment of a relative path.\<close>

definition extname :: "string \<Rightarrow> string" where
  "extname n =
     (let e = takeWhile (\<lambda>c. c \<noteq> CHR ''.'') (rev n)
      in if length n \<le> Suc (length e) then [] else CHR ''.'' # rev e)"

definition stem :: "string \<Rightarrow> string" where
  "stem n = take (length n - length (extname n)) n"

definition replace_ext :: "string \<Rightarrow> path \<Rightarrow> path" where
  "replace_ext e p = (case rev p of [] \<Rightarrow> [] | n # ds \<Rightarrow> rev ds @ [stem n @ e])"

definition add_suffix :: "string \<Rightarrow> path \<Rightarrow> path" where
  "add_suffix sfx p =
     (case rev p of [] \<Rightarrow> [] | n # ds \<Rightarrow> rev ds @ [stem n @ sfx @ extname n])"

definition ends_with :: "string \<Rightarrow> string \<Rightarrow> bool" where
  "ends_with x f = (length x \<le> length f \<and> drop (length f - length x) f = x)"

section \<open>Tasks and their composition\<close>

datatype task = Clean | Copy | Html | Style | Images | BuildJs | Reload | Deploy | Serve

datatype plan = Task task | Series "plan list" | Parallel "plan list"

datatype outcome = Ok | Fatal | Pending

definition exports_build :: plan where
  "exports_build =
     Series [Task Clean,
             Parallel [Task Copy, Task Images],
             Parallel [Task Html, Task Style, Task BuildJs]]"

definition exports_default :: plan where
  "exports_default =
     Series [Task Clean,
             Parallel [Task Copy, Task Images],
             Parallel [Task Html, Task Style, Task BuildJs],
             Task Serve]"

subsection \<open>Order of task starts and completions\<close>

datatype event = Start task | Done task | Failed task

fun ev_task :: "event \<Rightarrow> task" where
  "ev_task (Start t) = t"
| "ev_task (Done t) = t"
| "ev_task (Failed t) = t"

fun interleave :: "'a list \<Rightarrow> 'a list \<Rightarrow> 'a list list" where
  "interleave [] ys = [ys]"
| "interleave (x # xs) [] = [x # xs]"
| "interleave (x # xs) (y # ys) =
     map ((#) x) (interleave xs (y # ys)) @ map ((#) y) (interleave (x # xs) ys)"

fun join :: "outcome \<Rightarrow> outcome \<Rightarrow> outcome" where
  "join Fatal r = Fatal"
| "join r Fatal = Fatal"
| "join Pending r = Pending"
| "join r Pending = Pending"
| "join Ok Ok = Ok"

text \<open>
  Modelled from the spec: the combinators \<open>series\<close> and \<open>parallel\<close> belong to the task
  runner, not to the gulpfile.  A task signals completion (\<open>Done\<close>, also after an error
  that a tolerant wrapper reported), signals an error (\<open>Failed\<close>), or never signals
  (\<open>Pending\<close>); \<open>beh\<close> says which.  \<open>series\<close> starts its next member when the previous
  one has completed and stops at the first member that does not; \<open>parallel\<close> starts
  all its members and lets them overlap in every possible way.  \<open>traces\<close> lists every
  resulting order of events with the outcome of the whole plan.
\<close>

fun traces :: "(task \<Rightarrow> outcome) \<Rightarrow> plan \<Rightarrow> (event list \<times> outcome) list" where
  "traces beh (Task t) =
     [(case beh t of Ok \<Rightarrow> [Start t, Done t] | Fatal \<Rightarrow> [Start t, Failed t]
        | Pending \<Rightarrow> [Start t], beh t)]"
| "traces beh (Series []) = [([], Ok)]"
| "traces beh (Series (p # ps)) =
     concat (map (\<lambda>(tr, r).
        if r = Ok then map (\<lambda>(tr', r'). (tr @ tr', r')) (traces beh (Series ps))
        else [(tr, r)]) (traces beh p))"
| "traces beh (Parallel []) = [([], Ok)]"
| "traces beh (Parallel (p # ps)) =
     concat (map (\<lambda>(tr, r).
        concat (map (\<lambda>(tr', r'). map (\<lambda>i. (i, join r r')) (interleave tr tr'))
                    (traces beh (Parallel ps)))) (traces beh p))"

fun tasks_of :: "plan \<Rightarrow> task list" where
  "tasks_of (Task t) = [t]"
| "tasks_of (Series ps) = concat (map tasks_of ps)"
| "tasks_of (Parallel ps) = concat (map tasks_of ps)"

text \<open>The stages of a pipeline are the members of its top-level \<open>series\<close>.\<close>

fun stages :: "plan \<Rightarrow> task list list" where
  "stages (Series ps) = map tasks_of ps"
| "stages p = [tasks_of p]"

text \<open>\<open>settled_before a b tr\<close>: if \<open>b\<close> starts in \<open>tr\<close>, then \<open>a\<close> has signalled
  completion earlier in \<open>tr\<close>.\<close>

definition settled_before :: "task \<Rightarrow> task \<Rightarrow> event list \<Rightarrow> bool" where
  "settled_before a b tr =
     (if Start b \<in> set tr then Done a \<in> set (takeWhile (\<lambda>e. e \<noteq> Start b) tr) else True)"

definition stage_order :: "task list list \<Rightarrow> event list \<Rightarrow> bool" where
  "stage_order sts tr =
     list_all (\<lambda>n. list_all (\<lambda>a. list_all (\<lambda>b. settled_before a b tr) (sts ! Suc n)) (sts ! n))
       [0..<length sts - 1]"

definition last_started :: "task \<Rightarrow> event list \<Rightarrow> bool" where
  "last_started t tr = list_all (\<lambda>e. case e of Start u \<Rightarrow> u = t | _ \<Rightarrow> True)
     (dropWhile (\<lambda>e. e \<noteq> Start t) tr)"

section \<open>The state the tasks act on\<close>

record vinyl =
  vbase :: path
  vrel :: path
  vcontents :: contents

definition vpath :: "vinyl \<Rightarrow> path" where
  "vpath v = vbase v @ vrel v"

record server_cfg =
  server_root :: string
  startPath :: string
  notify :: bool
  open_browser :: bool
  cors :: bool
  ui :: bool

record watch_rule =
  globs :: "string list"
  events :: "string list"
  delay :: nat
  action :: plan

datatype effect =
    Wrote path
  | Deleted string
  | Reported path
  | Notified path
  | Reloaded
  | Published path
  | ServerInit server_cfg
  | Watch watch_rule

record st =
  files :: files
  log :: "effect list"

text \<open>The delegated tools, with the options the gulpfile passes to them.\<close>

datatype tool =
    Pug
  | HtmlPrettify char nat
  | Less
  | PostcssAutoprefixer "string list"
  | Csso
  | Imagemin nat bool bool bool
  | Uglify

record webpack_cfg =
  wmode :: string
  filename :: string
  rule_test :: string
  rule_exclude :: string
  loader :: string
  preset :: string
  browsers :: "string list"
  debug :: bool
  corejs :: string
  useBuiltIns :: string
  minimize :: bool

text \<open>The events the watcher knows: three on files, two on directories.\<close>

datatype fs_event = Add | AddDir | Change | Unlink | UnlinkDir

fun event_name :: "fs_event \<Rightarrow> string" where
  "event_name Add = ''add''"
| "event_name AddDir = ''addDir''"
| "event_name Change = ''change''"
| "event_name Unlink = ''unlink''"
| "event_name UnlinkDir = ''unlinkDir''"

definition on_file :: "fs_event \<Rightarrow> bool" where
  "on_file ev = (case ev of AddDir \<Rightarrow> False | UnlinkDir \<Rightarrow> False | _ \<Rightarrow> True)"

text \<open>
  What the gulpfile does not decide is a parameter: \<open>transform\<close> is the result of a
  tool on one file (\<open>None\<close> when the tool emits an error), given the files it may
  read for imports; \<open>webpack\<close> is the bundle of the entry files; \<open>locked\<close> says
  which files cannot be deleted; \<open>publish\<close> is the result of the deployment;
  \<open>dir_reported\<close> says which events on a directory the watcher passes on to a rule
  whose glob matches the directory (it passes on some and keeps others to itself).
\<close>

record env =
  transform :: "tool \<Rightarrow> files \<Rightarrow> path \<Rightarrow> contents \<Rightarrow> contents option"
  webpack :: "webpack_cfg \<Rightarrow> files \<Rightarrow> vinyl list \<Rightarrow> contents option"
  locked :: "path \<Rightarrow> bool"
  publish :: "files \<Rightarrow> bool"
  dir_reported :: "fs_event \<Rightarrow> path \<Rightarrow> bool"

datatype stage =
    Plumber
  | Through tool
  | WebpackStream webpack_cfg
  | Dest string
  | Rename string
  | ServerStream

section \<open>Streams of files\<close>

text \<open>
  \<open>src\<close>, \<open>pipe\<close>, \<open>dest\<close>, \<open>plumber\<close> and \<open>rename\<close> are calls into
  libraries; the definitions below give them the meaning the libraries document.

  \<open>src\<close> reads the files matched by one of the globs.  The base of a file is the
  \<open>base\<close> option, or else the part of its glob before the first pattern segment.  A
  path without pattern characters that matches no file is an error.
\<close>

definition src :: "string list \<Rightarrow> string option \<Rightarrow> files \<Rightarrow> vinyl list option" where
  "src gs base fs =
     (if list_ex (\<lambda>g. \<not> is_glob g \<and> \<not> list_ex (\<lambda>(p, c). glob_match g p) fs) gs then None
      else Some (List.map_filter (\<lambda>(p, c).
             case find (\<lambda>g. glob_match g p) gs of
               None \<Rightarrow> None
             | Some g \<Rightarrow>
                 (let b = (case base of Some d \<Rightarrow> segments d | None \<Rightarrow> glob_parent g)
                  in Some \<lparr>vbase = b, vrel = drop (length b) p, vcontents = c\<rparr>)) fs))"

definition tool_ext :: "tool \<Rightarrow> string option" where
  "tool_ext t = (case t of Pug \<Rightarrow> Some ''.html'' | Less \<Rightarrow> Some ''.css'' | _ \<Rightarrow> None)"

definition through :: "env \<Rightarrow> tool \<Rightarrow> files \<Rightarrow> vinyl \<Rightarrow> vinyl option" where
  "through e t fs v =
     (case transform e t fs (vpath v) (vcontents v) of
        None \<Rightarrow> None
      | Some c \<Rightarrow>
          Some (v\<lparr>vrel := (case tool_ext t of None \<Rightarrow> vrel v | Some x \<Rightarrow> replace_ext x (vrel v)),
                 vcontents := c\<rparr>))"

definition write_file :: "string \<Rightarrow> vinyl \<Rightarrow> st \<Rightarrow> st" where
  "write_file d v s =
     s\<lparr>files := AList.update (segments d @ vrel v) (vcontents v) (files s),
       log := log s @ [Wrote (segments d @ vrel v)]\<rparr>"

definition say :: "effect list \<Rightarrow> st \<Rightarrow> st" where
  "say es s = s\<lparr>log := log s @ es\<rparr>"

text \<open>
  A pipeline is the list of the stages piped after \<open>src\<close>.  The files go through it
  one by one, in the order \<open>src\<close> read them: \<open>feed\<close> takes one file through the
  stages up to the next bundler, \<open>feed_all\<close> does so for each file in turn.  An error
  of a tool is reported and the file dropped when \<open>plumber\<close> was piped earlier
  (\<open>pl\<close>); otherwise it is the error of the task: no later stage sees the file, no
  later file is read, and what was written before stays written.  \<open>dest\<close> writes the
  file at the directory followed by the file's relative path and makes the directory its
  base; \<open>rename\<close> puts the suffix between name and extension.
\<close>

fun feed :: "env \<Rightarrow> bool \<Rightarrow> stage list \<Rightarrow> vinyl \<Rightarrow> st \<Rightarrow> outcome \<times> vinyl option \<times> st" where
  "feed e pl [] v s = (Ok, Some v, s)"
| "feed e pl (Plumber # ss) v s = feed e True ss v s"
| "feed e pl (Through t # ss) v s =
     (case through e t (files s) v of
        Some w \<Rightarrow> feed e pl ss w s
      | None \<Rightarrow> if pl then (Ok, None, say [Reported (vpath v)] s) else (Fatal, None, s))"
| "feed e pl (WebpackStream cfg # ss) v s = (Ok, Some v, s)"
| "feed e pl (Dest d # ss) v s = feed e pl ss (v\<lparr>vbase := segments d\<rparr>) (write_file d v s)"
| "feed e pl (Rename sfx # ss) v s = feed e pl ss (v\<lparr>vrel := add_suffix sfx (vrel v)\<rparr>) s"
| "feed e pl (ServerStream # ss) v s = feed e pl ss v (say [Notified (vpath v)] s)"

fun feed_all ::
  "env \<Rightarrow> bool \<Rightarrow> stage list \<Rightarrow> vinyl list \<Rightarrow> st \<Rightarrow> outcome \<times> vinyl list \<times> st" where
  "feed_all e pl sts [] s = (Ok, [], s)"
| "feed_all e pl sts (v # vs) s =
     (case feed e pl sts v s of
        (Ok, r, s') \<Rightarrow>
          (case feed_all e pl sts vs s' of
             (q, ws, s'') \<Rightarrow> (q, (case r of None \<Rightarrow> ws | Some w \<Rightarrow> w # ws), s''))
      | (q, r, s') \<Rightarrow> (q, [], s'))"

text \<open>
  A bundler takes all the files that reach it and, when the last has arrived, emits the
  bundle under the file name of its configuration.  \<open>run_stages\<close> walks the pipeline:
  \<open>leg\<close> holds the stages since \<open>src\<close> or the last bundler, through which the files
  are fed one by one.
\<close>

fun run_stages ::
  "env \<Rightarrow> bool \<Rightarrow> stage list \<Rightarrow> stage list \<Rightarrow> vinyl list \<Rightarrow> st \<Rightarrow> outcome \<times> st" where
  "run_stages e pl leg [] vs s = (case feed_all e pl leg vs s of (r, ws, s') \<Rightarrow> (r, s'))"
| "run_stages e pl leg (WebpackStream cfg # ss) vs s =
     (case feed_all e pl leg vs s of
        (Ok, ws, s') \<Rightarrow>
          (let pl' = (pl \<or> Plumber \<in> set leg) in
           case webpack e cfg (files s') ws of
             Some c \<Rightarrow>
               run_stages e pl' [] ss [\<lparr>vbase = [], vrel = [filename cfg], vcontents = c\<rparr>] s'
           | None \<Rightarrow>
               if pl' then run_stages e pl' [] ss [] (say (map (Reported \<circ> vpath) ws) s')
               else (Fatal, s'))
      | (r, ws, s') \<Rightarrow> (r, s'))"
| "run_stages e pl leg (x # ss) vs s = run_stages e pl (leg @ [x]) ss vs s"

definition stream_task ::
  "env \<Rightarrow> string list \<Rightarrow> string option \<Rightarrow> stage list \<Rightarrow> st \<Rightarrow> outcome \<times> st" where
  "stream_task e gs base sts s =
     (case src gs base (files s) of
        None \<Rightarrow> (Fatal, s)
      | Some vs \<Rightarrow> run_stages e False [] sts vs s)"

text \<open>
  Modelled from the spec: \<open>del\<close> is a library function, not code of the gulpfile.  It
  deletes the entire tree at the pattern, and everything under it: every file that has
  the pattern as itself or as an ancestor.  Its promise resolves once removal is
  finished, also when nothing is there to remove; when a file cannot be removed it
  rejects.  The model does not say which files were removed before a rejection and
  leaves the state as it was.
\<close>

definition under :: "string \<Rightarrow> path \<Rightarrow> bool" where
  "under g p = list_ex (\<lambda>k. glob_match g (take k p)) [1..<Suc (length p)]"

definition del :: "env \<Rightarrow> string \<Rightarrow> st \<Rightarrow> outcome \<times> st" where
  "del e g s =
     (if list_ex (\<lambda>(p, c). under g p \<and> locked e p) (files s) then (Fatal, s)
      else (Ok, s\<lparr>files := filter (\<lambda>(p, c). \<not> under g p) (files s),
                  log := log s @ [Deleted g]\<rparr>))"

section \<open>The tasks of the gulpfile\<close>

definition clean :: "env \<Rightarrow> st \<Rightarrow> outcome \<times> st" where
  "clean e s = del e ''build'' s"

definition copy_globs :: "string list" where
  "copy_globs = [''source/fonts/**/*.{woff,woff2,eot,ttf}'']"

definition copy_stages :: "stage list" where
  "copy_stages = [Dest ''build'']"

definition copy :: "env \<Rightarrow> st \<Rightarrow> outcome \<times> st" where
  "copy e s = stream_task e copy_globs (Some ''source'') copy_stages s"

definition html_globs :: "string list" where
  "html_globs = [''source/pages/*.pug'']"

definition html_stages :: "stage list" where
  "html_stages =
     [Plumber, Through Pug, Through (HtmlPrettify CHR '' '' 2), Dest ''build'', ServerStream]"

definition html :: "env \<Rightarrow> st \<Rightarrow> outcome \<times> st" where
  "html e s = stream_task e html_globs None html_stages s"

definition style_globs :: "string list" where
  "style_globs = [''source/less/style.less'']"

definition style_stages :: "stage list" where
  "style_stages =
     [Plumber, Through Less, Through (PostcssAutoprefixer [''last 3 versions'']),
      Dest ''build/css'', Through Csso, Rename ''.min'', Dest ''build/css'', ServerStream]"

definition style :: "env \<Rightarrow> st \<Rightarrow> outcome \<times> st" where
  "style e s = stream_task e style_globs None style_stages s"

definition images_globs :: "string list" where
  "images_globs = [''source/img/**/*.{png,jpg,svg}'']"

text \<open>The options of \<open>Imagemin\<close>: optipng's \<open>optimizationLevel\<close>, jpegtran's
  \<open>progressive\<close>, svgo's \<open>removeViewBox\<close> and \<open>convertColors.shorthex\<close>.\<close>

definition images_stages :: "stage list" where
  "images_stages = [Through (Imagemin 3 True False False), Dest ''build/img'']"

definition images :: "env \<Rightarrow> st \<Rightarrow> outcome \<times> st" where
  "images e s = stream_task e images_globs None images_stages s"

definition buildJs_globs :: "string list" where
  "buildJs_globs = [''source/js/script.js'']"

definition buildJs_cfg :: webpack_cfg where
  "buildJs_cfg =
     \<lparr>wmode = ''production'', filename = ''script.js'',
      rule_test = CHR ''/'' # CHR 0x5C # ''.(js)$/'', rule_exclude = ''/(node_modules)/'',
      loader = ''babel-loader'',
      preset = ''@babel/preset-env'', browsers = [''> 1%'', ''last 3 versions''],
      debug = True, corejs = ''3.0.0'', useBuiltIns = ''usage'', minimize = False\<rparr>"

definition buildJs_stages :: "stage list" where
  "buildJs_stages =
     [Plumber, WebpackStream buildJs_cfg, Dest ''build/js'', Through Uglify,
      Rename ''.min'', Dest ''build/js'']"

definition buildJs :: "env \<Rightarrow> st \<Rightarrow> outcome \<times> st" where
  "buildJs e s = stream_task e buildJs_globs None buildJs_stages s"

definition reload :: "env \<Rightarrow> st \<Rightarrow> outcome \<times> st" where
  "reload e s = (Ok, say [Reloaded] s)"

definition deploy :: "env \<Rightarrow> st \<Rightarrow> outcome \<times> st" where
  "deploy e s =
     (if publish e (filter (\<lambda>(p, c). under ''build'' p) (files s))
      then (Ok, say [Published (segments ''./build'')] s)
      else (Fatal, s))"

definition serve_cfg :: server_cfg where
  "serve_cfg =
     \<lparr>server_root = ''build/'', startPath = ''index.html'', notify = False,
      open_browser = False, cors = True, ui = False\<rparr>"

definition watch_html :: watch_rule where
  "watch_html =
     \<lparr>globs = [''source/pages/**/*.pug'', ''source/pug/**/*.pug''],
      events = [''add'', ''change'', ''unlink''], delay = 50,
      action = Series [Task Html, Task Reload]\<rparr>"

definition watch_style :: watch_rule where
  "watch_style =
     \<lparr>globs = [''source/less/**/*.less''],
      events = [''add'', ''change'', ''unlink''], delay = 50,
      action = Series [Task Style, Task Reload]\<rparr>"

definition watch_js :: watch_rule where
  "watch_js =
     \<lparr>globs = [''source/js/**/*.js''],
      events = [''add'', ''change'', ''unlink''], delay = 50,
      action = Series [Task BuildJs, Task Reload]\<rparr>"

definition watch_img :: watch_rule where
  "watch_img =
     \<lparr>globs = [''source/img/*''],
      events = [''all''], delay = 50,
      action = Series [Task Images, Task Reload]\<rparr>"

definition server_init :: "server_cfg \<Rightarrow> st \<Rightarrow> st" where
  "server_init cfg s = say [ServerInit cfg] s"

definition watch :: "watch_rule \<Rightarrow> st \<Rightarrow> st" where
  "watch r s = say [Watch r] s"

text \<open>\<open>serve\<close> takes no callback and returns nothing: it never signals completion.\<close>

definition serve :: "env \<Rightarrow> st \<Rightarrow> outcome \<times> st" where
  "serve e s =
     (let s1 = server_init serve_cfg s;
          s2 = watch watch_html s1;
          s3 = watch watch_style s2;
          s4 = watch watch_js s3;
          s5 = watch watch_img s4
      in (Pending, s5))"

fun task_fn :: "task \<Rightarrow> env \<Rightarrow> st \<Rightarrow> outcome \<times> st" where
  "task_fn Clean = clean"
| "task_fn Copy = copy"
| "task_fn Html = html"
| "task_fn Style = style"
| "task_fn Images = images"
| "task_fn BuildJs = buildJs"
| "task_fn Reload = reload"
| "task_fn Deploy = deploy"
| "task_fn Serve = serve"

text \<open>
  The effect of a plan on the state, with \<open>series\<close> and \<open>parallel\<close> as for
  \<open>traces\<close>.  The members of \<open>parallel\<close> are all started, also when one of them
  fails; here they act on the state in the order they are listed.
\<close>

fun run :: "env \<Rightarrow> plan \<Rightarrow> st \<Rightarrow> outcome \<times> st" where
  "run e (Task t) s = task_fn t e s"
| "run e (Series []) s = (Ok, s)"
| "run e (Series (p # ps)) s =
     (case run e p s of
        (Ok, s') \<Rightarrow> run e (Series ps) s'
      | (r, s') \<Rightarrow> (r, s'))"
| "run e (Parallel []) s = (Ok, s)"
| "run e (Parallel (p # ps)) s =
     (case run e p s of (r, s') \<Rightarrow>
        (case run e (Parallel ps) s' of (r', s'') \<Rightarrow> (join r r', s'')))"

section \<open>Watch rules and the events that fire them\<close>

definition listens :: "watch_rule \<Rightarrow> fs_event \<Rightarrow> bool" where
  "listens r ev = (''all'' \<in> set (events r) \<or> event_name ev \<in> set (events r))"

text \<open>
  A rule fires on an event at a path when it listens to the event and one of its globs
  matches the path; for an event on a directory the watcher must pass it on as well.
\<close>

definition fires :: "env \<Rightarrow> watch_rule \<Rightarrow> fs_event \<Rightarrow> path \<Rightarrow> bool" where
  "fires e r ev p =
     (listens r ev \<and> list_ex (\<lambda>g. glob_match g p) (globs r) \<and>
      (if on_file ev then True else dir_reported e ev p))"

definition watches :: "st \<Rightarrow> watch_rule list" where
  "watches s = List.map_filter (\<lambda>x. case x of Watch r \<Rightarrow> Some r | _ \<Rightarrow> None) (log s)"

text \<open>The plans started by an event on a path, one for each registered rule that fires.\<close>

definition triggered :: "env \<Rightarrow> st \<Rightarrow> fs_event \<Rightarrow> path \<Rightarrow> plan list" where
  "triggered e s ev p = map action (filter (\<lambda>r. fires e r ev p) (watches s))"

text \<open>Live-reload notifications among the effects: a file streamed to the server, or
  a reload.\<close>

definition is_notification :: "effect \<Rightarrow> bool" where
  "is_notification x = (case x of Notified p \<Rightarrow> True | Reloaded \<Rightarrow> True | _ \<Rightarrow> False)"

text \<open>
  Modelled from the spec: the stylesheet minifier (\<open>gulp-csso\<close>, the \<open>Csso\<close> tool) is
  a delegated tool whose code is not in the repository.  The spec's contract for it: the
  minified bytes are never more than the bytes it was given.
\<close>

definition minifier_contract :: "env \<Rightarrow> bool" where
  "minifier_contract e =
     (\<forall>fs p c c'. transform e Csso fs p c = Some c' \<longrightarrow> length c' \<le> length c)"

section \<open>A small source tree and tools to run the tasks on\<close>

definition example_env :: env where
  "example_env =
     \<lparr>transform = (\<lambda>t fs p c.
        case t of Csso \<Rightarrow> Some (filter (\<lambda>x. x \<noteq> CHR '' '') c) | _ \<Rightarrow> Some c),
      webpack = (\<lambda>cfg fs vs. Some (concat (map vcontents vs))),
      locked = (\<lambda>p. False),
      publish = (\<lambda>fs. True),
      dir_reported = (\<lambda>ev p. False)\<rparr>"

definition example_files :: files where
  "example_files =
     [([''source'', ''pages'', ''index.pug''], ''h1 Hello''),
      ([''source'', ''pug'', ''blocks'', ''head.pug''], ''title Hello''),
      ([''source'', ''less'', ''style.less''], ''a { color: red }''),
      ([''source'', ''js'', ''script.js''], ''let x = 1''),
      ([''source'', ''fonts'', ''roboto'', ''regular.woff2''], ''wOF2''),
      ([''source'', ''img'', ''icons'', ''logo.png''], ''PNG''),
      ([''build'', ''stale.txt''], ''old'')]"

definition failing_imagemin_env :: env where
  "failing_imagemin_env =
     example_env\<lparr>transform := (\<lambda>t fs p c. case t of Imagemin l pr vb sh \<Rightarrow> None | _ \<Rightarrow> Some c)\<rparr>"

section \<open>Facts about glob patterns\<close>

lemma ends_with_iff: "ends_with x f = (\<exists>n. f = n @ x)"
proof
  assume "ends_with x f"
  then have "f = take (length f - length x) f @ x"
    by (metis append_take_drop_id ends_with_def)
  then show "\<exists>n. f = n @ x" ..
next
  assume "\<exists>n. f = n @ x"
  then show "ends_with x f" by (auto simp: ends_with_def)
qed

lemma wild_literal: "CHR ''*'' \<notin> set ps \<Longrightarrow> wild ps s = (s = ps)"
proof (induction ps arbitrary: s)
  case Nil
  show ?case by simp
next
  case (Cons p ps)
  then show ?case by (cases s) auto
qed

lemma wild_star: "wild (CHR ''*'' # ps) s = (\<exists>k\<le>length s. wild ps (drop k s))"
proof (induction s)
  case Nil
  show ?case by simp
next
  case (Cons c cs)
  have "(\<exists>k\<le>length (c # cs). wild ps (drop k (c # cs))) =
        (wild ps (c # cs) \<or> (\<exists>k\<le>length cs. wild ps (drop k cs)))"
  proof
    assume "\<exists>k\<le>length (c # cs). wild ps (drop k (c # cs))"
    then obtain k where k: "k \<le> length (c # cs)" "wild ps (drop k (c # cs))" by blast
    show "wild ps (c # cs) \<or> (\<exists>k\<le>length cs. wild ps (drop k cs))"
    proof (cases k)
      case 0
      with k show ?thesis by simp
    next
      case (Suc j)
      with k show ?thesis by auto
    qed
  next
    assume "wild ps (c # cs) \<or> (\<exists>k\<le>length cs. wild ps (drop k cs))"
    then show "\<exists>k\<le>length (c # cs). wild ps (drop k (c # cs))"
    proof
      assume "wild ps (c # cs)"
      then have "wild ps (drop 0 (c # cs))" by simp
      then show ?thesis by blast
    next
      assume "\<exists>k\<le>length cs. wild ps (drop k cs)"
      then obtain k where "k \<le> length cs" "wild ps (drop k cs)" by blast
      then have "Suc k \<le> length (c # cs) \<and> wild ps (drop (Suc k) (c # cs))" by simp
      then show ?thesis by blast
    qed
  qed
  with Cons show ?case by simp
qed

lemma wild_star_literal:
  assumes "CHR ''*'' \<notin> set ps"
  shows "wild (CHR ''*'' # ps) s = ends_with ps s"
proof -
  have "wild (CHR ''*'' # ps) s = (\<exists>k\<le>length s. drop k s = ps)"
    by (simp only: wild_star wild_literal [OF assms])
  also have "\<dots> = ends_with ps s"
  proof
    assume "\<exists>k\<le>length s. drop k s = ps"
    then obtain k where "drop k s = ps" by blast
    then have "s = take k s @ ps" by (metis append_take_drop_id)
    then show "ends_with ps s" unfolding ends_with_iff ..
  next
    assume "ends_with ps s"
    then show "\<exists>k\<le>length s. drop k s = ps"
      unfolding ends_with_def by (intro exI [of _ "length s - length ps"]) simp
  qed
  finally show ?thesis .
qed

lemma seg_match_literal:
  assumes "CHR ''*'' \<notin> set a" "CHR ''{'' \<notin> set a" "\<not> hidden a"
  shows "seg_match a s = (s = a)"
proof -
  have "dropWhile (\<lambda>c. c \<noteq> CHR ''{'') a = []" using assms(2) by (auto simp: dropWhile_eq_Nil_conv)
  then have "expand_braces a = [a]" by (simp add: expand_braces_def Let_def)
  then show ?thesis using assms by (auto simp: seg_match_def wild_literal)
qed


lemma globstar_last:
  "a \<noteq> ''**'' \<Longrightarrow>
   match_segs [''**'', a] (ds @ [f]) = (list_all (\<lambda>x. \<not> hidden x) ds \<and> seg_match a f)"
  by (induction ds) auto

lemma seg_source [simp]: "seg_match ''source'' s = (s = ''source'')"
  by (rule seg_match_literal) (simp_all add: hidden_def)
lemma seg_img [simp]: "seg_match ''img'' s = (s = ''img'')"
  by (rule seg_match_literal) (simp_all add: hidden_def)
lemma seg_pages [simp]: "seg_match ''pages'' s = (s = ''pages'')"
  by (rule seg_match_literal) (simp_all add: hidden_def)
lemma seg_pug [simp]: "seg_match ''pug'' s = (s = ''pug'')"
  by (rule seg_match_literal) (simp_all add: hidden_def)
lemma seg_less [simp]: "seg_match ''less'' s = (s = ''less'')"
  by (rule seg_match_literal) (simp_all add: hidden_def)
lemma seg_js [simp]: "seg_match ''js'' s = (s = ''js'')"
  by (rule seg_match_literal) (simp_all add: hidden_def)
lemma seg_fonts [simp]: "seg_match ''fonts'' s = (s = ''fonts'')"
  by (rule seg_match_literal) (simp_all add: hidden_def)

lemma seg_star_ext:
  assumes "CHR ''*'' \<notin> set x" "CHR ''{'' \<notin> set x"
  shows "seg_match (CHR ''*'' # x) f = (\<not> hidden f \<and> ends_with x f)"
proof -
  have "dropWhile (\<lambda>c. c \<noteq> CHR ''{'') (CHR ''*'' # x) = []"
    using assms(2) by (auto simp: dropWhile_eq_Nil_conv)
  then have "expand_braces (CHR ''*'' # x) = [CHR ''*'' # x]"
    by (simp add: expand_braces_def Let_def)
  then show ?thesis
    using assms(1) by (auto simp: seg_match_def wild_star_literal hidden_def)
qed

lemma seg_images:
  "seg_match ''*.{png,jpg,svg}'' f =
     (\<not> hidden f \<and> (ends_with ''.png'' f \<or> ends_with ''.jpg'' f \<or> ends_with ''.svg'' f))"
proof -
  have "expand_braces ''*.{png,jpg,svg}'' = [''*.png'', ''*.jpg'', ''*.svg'']"
    by (simp add: expand_braces_def)
  then show ?thesis
    by (auto simp: seg_match_def wild_star_literal hidden_def)
qed

section \<open>The watch rules of serve\<close>

lemma watches_serve:
  "watches (snd (serve e s)) = watches s @ [watch_html, watch_style, watch_js, watch_img]"
  by (simp add: serve_def watches_def watch_def server_init_def say_def Let_def map_filter_def)

text \<open>
  Claim C3.  \<open>serve\<close> first starts the static server on the output directory
  \<open>build/\<close> and then registers exactly four watch rules, in this order: templates,
  stylesheets, scripts, images.  Each rule has a delay of 50 ms and runs its task
  followed by \<open>reload\<close>, in series.  The first three rules listen to the events add,
  change and unlink, and to no other; the image rule listens to every event.
\<close>

theorem serve_registers_four_watch_rules:
  "log (snd (serve e s)) =
     log s @ [ServerInit serve_cfg, Watch watch_html, Watch watch_style, Watch watch_js,
              Watch watch_img]
   \<and> watches (snd (serve e s)) = watches s @ [watch_html, watch_style, watch_js, watch_img]
   \<and> segments (server_root serve_cfg) = [''build'']
   \<and> map delay [watch_html, watch_style, watch_js, watch_img] = [50, 50, 50, 50]
   \<and> map globs [watch_html, watch_style, watch_js, watch_img] =
       [[''source/pages/**/*.pug'', ''source/pug/**/*.pug''], [''source/less/**/*.less''],
        [''source/js/**/*.js''], [''source/img/*'']]
   \<and> map action [watch_html, watch_style, watch_js, watch_img] =
       [Series [Task Html, Task Reload], Series [Task Style, Task Reload],
        Series [Task BuildJs, Task Reload], Series [Task Images, Task Reload]]
   \<and> listens watch_html ev = (ev \<in> {Add, Change, Unlink})
   \<and> listens watch_style ev = (ev \<in> {Add, Change, Unlink})
   \<and> listens watch_js ev = (ev \<in> {Add, Change, Unlink})
   \<and> listens watch_img ev"
proof -
  have l: "log (snd (serve e s)) =
     log s @ [ServerInit serve_cfg, Watch watch_html, Watch watch_style, Watch watch_js,
              Watch watch_img]"
    by (simp add: serve_def watch_def server_init_def say_def Let_def)
  have c: "segments (server_root serve_cfg) = [''build'']"
    by (simp add: serve_cfg_def segments_def)
  have d: "map delay [watch_html, watch_style, watch_js, watch_img] = [50, 50, 50, 50]"
    by (simp add: watch_html_def watch_style_def watch_js_def watch_img_def)
  have g: "map globs [watch_html, watch_style, watch_js, watch_img] =
       [[''source/pages/**/*.pug'', ''source/pug/**/*.pug''], [''source/less/**/*.less''],
        [''source/js/**/*.js''], [''source/img/*'']]"
    by (simp add: watch_html_def watch_style_def watch_js_def watch_img_def)
  have a: "map action [watch_html, watch_style, watch_js, watch_img] =
       [Series [Task Html, Task Reload], Series [Task Style, Task Reload],
        Series [Task BuildJs, Task Reload], Series [Task Images, Task Reload]]"
    by (simp add: watch_html_def watch_style_def watch_js_def watch_img_def)
  have e1: "listens watch_html ev = (ev \<in> {Add, Change, Unlink})"
    by (cases ev) (simp_all add: listens_def watch_html_def)
  have e2: "listens watch_style ev = (ev \<in> {Add, Change, Unlink})"
    by (cases ev) (simp_all add: listens_def watch_style_def)
  have e3: "listens watch_js ev = (ev \<in> {Add, Change, Unlink})"
    by (cases ev) (simp_all add: listens_def watch_js_def)
  have e4: "listens watch_img ev"
    by (simp add: listens_def watch_img_def)
  from l watches_serve c d g a e1 e2 e3 e4 show ?thesis by blast
qed

lemma segments_globs:
  "segments ''source/img/*'' = [''source'', ''img'', ''*'']"
  "segments ''source/img/**/*.{png,jpg,svg}'' = [''source'', ''img'', ''**'', ''*.{png,jpg,svg}'']"
  "segments ''source/pages/*.pug'' = [''source'', ''pages'', ''*.pug'']"
  "segments ''source/pages/**/*.pug'' = [''source'', ''pages'', ''**'', ''*.pug'']"
  "segments ''source/pug/**/*.pug'' = [''source'', ''pug'', ''**'', ''*.pug'']"
  "segments ''source/less/**/*.less'' = [''source'', ''less'', ''**'', ''*.less'']"
  "segments ''source/js/**/*.js'' = [''source'', ''js'', ''**'', ''*.js'']"
  "segments ''source/fonts/**/*.{woff,woff2,eot,ttf}'' =
     [''source'', ''fonts'', ''**'', ''*.{woff,woff2,eot,ttf}'']"
  "segments ''source/less/style.less'' = [''source'', ''less'', ''style.less'']"
  "segments ''source/js/script.js'' = [''source'', ''js'', ''script.js'']"
  "segments ''build'' = [''build'']"
  "segments ''build/css'' = [''build'', ''css'']"
  "segments ''build/js'' = [''build'', ''js'']"
  "segments ''build/img'' = [''build'', ''img'']"
  "segments ''source'' = [''source'']"
  by (simp_all add: segments_def)

lemma seg_star: "seg_match ''*'' f = (\<not> hidden f)"
  using seg_star_ext [of "[]" f] by (simp add: ends_with_def)

lemma watches_fresh:
  "watches (snd (serve e \<lparr>files = fs, log = []\<rparr>)) = [watch_html, watch_style, watch_js, watch_img]"
  by (simp add: watches_serve) (simp add: watches_def map_filter_def)

lemma img_path_fires:
  "fires e r ev (''source'' # ''img'' # rest) \<Longrightarrow> r \<in> {watch_html, watch_style, watch_js} \<Longrightarrow> False"
  by (auto simp: fires_def watch_html_def watch_style_def watch_js_def glob_match_def segments_globs)

text \<open>
  Claim C9.  The image watch rule is registered on \<open>source/img/*\<close> only: it fires
  on an add, change or unlink of a file directly in \<open>source/img\<close>.  No file-system
  event on a path inside a subdirectory of \<open>source/img\<close> fires it, and in a freshly
  served session such an event starts no task sequence at all.  The glob of \<open>images\<close>
  nevertheless matches a file there, at any depth, when no directory or file name on the
  way starts with a dot and the name ends in \<open>.png\<close>, \<open>.jpg\<close> or \<open>.svg\<close>.
\<close>

theorem nested_images_are_not_watched:
  "globs watch_img = [''source/img/*'']
   \<and> action watch_img = Series [Task Images, Task Reload]
   \<and> (if on_file ev \<and> \<not> hidden f then fires e watch_img ev [''source'', ''img'', f] else True)
   \<and> \<not> fires e watch_img ev (''source'' # ''img'' # d # ds @ [f])
   \<and> triggered e (snd (serve e \<lparr>files = fs, log = []\<rparr>)) ev (''source'' # ''img'' # d # ds @ [f]) = []
   \<and> list_ex (\<lambda>g. glob_match g (''source'' # ''img'' # d # ds @ [f])) images_globs =
       (list_all (\<lambda>x. \<not> hidden x) (d # ds @ [f]) \<and>
        (ends_with ''.png'' f \<or> ends_with ''.jpg'' f \<or> ends_with ''.svg'' f))"
proof -
  let ?p = "''source'' # ''img'' # d # ds @ [f]"
  have g: "globs watch_img = [''source/img/*'']" and a: "action watch_img = Series [Task Images, Task Reload]"
    by (simp_all add: watch_img_def)
  have nf: "\<not> fires e watch_img ev ?p"
    by (simp add: fires_def watch_img_def glob_match_def segments_globs)
  have top: "fires e watch_img ev [''source'', ''img'', f]" if "on_file ev" "\<not> hidden f"
    using that
    by (simp add: fires_def listens_def watch_img_def glob_match_def segments_globs seg_star)
  have others: "\<not> fires e r ev ?p" if "r \<in> {watch_html, watch_style, watch_js}" for r
    using img_path_fires that by blast
  have tr: "triggered e (snd (serve e \<lparr>files = fs, log = []\<rparr>)) ev ?p = []"
    unfolding triggered_def watches_fresh using nf others by simp
  have "match_segs [''**'', ''*.{png,jpg,svg}''] ((d # ds) @ [f]) =
        (list_all (\<lambda>x. \<not> hidden x) (d # ds) \<and> seg_match ''*.{png,jpg,svg}'' f)"
    by (rule globstar_last) simp
  then have m: "list_ex (\<lambda>g. glob_match g ?p) images_globs =
       (list_all (\<lambda>x. \<not> hidden x) (d # ds @ [f]) \<and>
        (ends_with ''.png'' f \<or> ends_with ''.jpg'' f \<or> ends_with ''.svg'' f))"
    by (auto simp: images_globs_def glob_match_def segments_globs seg_images)
  from g a top nf tr m show ?thesis by simp
qed

theorem nested_images_are_not_watched_witness:
  "on_file Change \<and> \<not> hidden ''a.png''
   \<and> fires example_env watch_img Change [''source'', ''img'', ''a.png'']
   \<and> \<not> fires example_env watch_img Change [''source'', ''img'', ''icons'', ''a.png'']
   \<and> list_ex (\<lambda>g. glob_match g [''source'', ''img'', ''icons'', ''a.png'']) images_globs"
  using nested_images_are_not_watched
    [where ev = Change and d = "''icons''" and ds = "[]" and f = "''a.png''" and e = example_env]
  by (simp add: hidden_def ends_with_def on_file_def)

section \<open>Order of the stages of the pipelines\<close>

lemma set_interleave: "t \<in> set (interleave xs ys) \<Longrightarrow> set t = set xs \<union> set ys"
proof (induction xs ys arbitrary: t rule: interleave.induct)
  case (1 ys)
  then show ?case by simp
next
  case (2 x xs)
  then show ?case by simp
next
  case (3 x xs y ys)
  from "3.prems" consider t' where "t = x # t'" "t' \<in> set (interleave xs (y # ys))"
    | t' where "t = y # t'" "t' \<in> set (interleave (x # xs) ys)"
    by auto
  then show ?case
  proof cases
    case 1
    with "3.IH"(1) [of t'] show ?thesis by auto
  next
    case 2
    with "3.IH"(2) [of t'] show ?thesis by auto
  qed
qed


lemma in_concat_map: "y \<in> set xs \<Longrightarrow> x \<in> set (f y) \<Longrightarrow> x \<in> set (concat (map f xs))"
  by auto

lemma traces_series_cons:
  "(tr, r) \<in> set (traces beh (Series (p # ps))) =
     ((tr, r) \<in> set (traces beh p) \<and> r \<noteq> Ok \<or>
      (\<exists>tr1 tr2. (tr1, Ok) \<in> set (traces beh p) \<and> (tr2, r) \<in> set (traces beh (Series ps))
          \<and> tr = tr1 @ tr2))"
  (is "?L = ?R")
proof
  assume ?L
  then obtain y where y: "y \<in> set (traces beh p)"
    "(tr, r) \<in> set (case y of (tr, r) \<Rightarrow>
        if r = Ok then map (\<lambda>(tr', r'). (tr @ tr', r')) (traces beh (Series ps)) else [(tr, r)])"
    by (simp only: traces.simps set_concat set_map UN_iff image_iff bex_simps) blast
  obtain tr1 r1 where "y = (tr1, r1)" by (cases y)
  with y have a: "(tr1, r1) \<in> set (traces beh p)"
    and b: "(tr, r) \<in> set (if r1 = Ok then map (\<lambda>(tr', r'). (tr1 @ tr', r')) (traces beh (Series ps))
        else [(tr1, r1)])"
    by simp_all
  show ?R
  proof (cases "r1 = Ok")
    case True
    with b obtain tr2 where "(tr2, r) \<in> set (traces beh (Series ps))" "tr = tr1 @ tr2"
      by auto
    with a True show ?thesis by blast
  next
    case False
    with a b show ?thesis by simp
  qed
next
  assume ?R
  then show ?L
  proof
    assume "(tr, r) \<in> set (traces beh p) \<and> r \<noteq> Ok"
    then have m: "(tr, r) \<in> set (traces beh p)" and n: "r \<noteq> Ok" by simp_all
    show ?L unfolding traces.simps by (rule in_concat_map [OF m]) (simp add: n)
  next
    assume "\<exists>tr1 tr2. (tr1, Ok) \<in> set (traces beh p) \<and> (tr2, r) \<in> set (traces beh (Series ps))
          \<and> tr = tr1 @ tr2"
    then obtain tr1 tr2 where m: "(tr1, Ok) \<in> set (traces beh p)"
      and n: "(tr2, r) \<in> set (traces beh (Series ps))" "tr = tr1 @ tr2" by blast
    from n have "(tr, r) \<in> (\<lambda>(tr', r'). (tr1 @ tr', r')) ` set (traces beh (Series ps))"
      by (intro image_eqI [of _ _ "(tr2, r)"]) simp_all
    then show ?L unfolding traces.simps by (intro in_concat_map [OF m]) simp
  qed
qed


lemma traces_parallel_cons:
  assumes "(tr, r) \<in> set (traces beh (Parallel (p # ps)))"
  shows "\<exists>tr1 r1 tr2 r2. (tr1, r1) \<in> set (traces beh p) \<and>
        (tr2, r2) \<in> set (traces beh (Parallel ps)) \<and> tr \<in> set (interleave tr1 tr2) \<and>
        r = join r1 r2"
proof -
  from assms obtain y where y: "y \<in> set (traces beh p)"
    "(tr, r) \<in> set (case y of (tr, r) \<Rightarrow>
        concat (map (\<lambda>(tr', r'). map (\<lambda>i. (i, join r r')) (interleave tr tr'))
                    (traces beh (Parallel ps))))"
    by (simp only: traces.simps set_concat set_map UN_iff image_iff bex_simps) blast
  obtain tr1 r1 where y1: "y = (tr1, r1)" by (cases y)
  with y(2) obtain z where z: "z \<in> set (traces beh (Parallel ps))"
    "(tr, r) \<in> set (case z of (tr', r') \<Rightarrow> map (\<lambda>i. (i, join r1 r')) (interleave tr1 tr'))"
    by (simp only: prod.case set_concat set_map UN_iff image_iff bex_simps) blast
  obtain tr2 r2 where z1: "z = (tr2, r2)" by (cases z)
  with z(2) have "tr \<in> set (interleave tr1 tr2)" "r = join r1 r2" by auto
  with y(1) y1 z(1) z1 show ?thesis by blast
qed

lemma join_Ok: "join r1 r2 = Ok \<Longrightarrow> r1 = Ok \<and> r2 = Ok"
  by (cases r1; cases r2) simp_all

lemma traces_tasks:
  "(tr, r) \<in> set (traces beh p) \<Longrightarrow> ev_task ` set tr \<subseteq> set (tasks_of p)"
proof (induction beh p arbitrary: tr r rule: traces.induct)
  case (1 beh t)
  then show ?case by (cases "beh t") auto
next
  case (2 beh)
  then show ?case by simp
next
  case (3 beh p ps)
  have ihp: "ev_task ` set t \<subseteq> set (tasks_of p)" if "(t, q) \<in> set (traces beh p)" for t q
    using "3.IH"(1) that .
  have ihs: "ev_task ` set t \<subseteq> set (tasks_of (Series ps))"
    if "(t1, Ok) \<in> set (traces beh p)" "(t, q) \<in> set (traces beh (Series ps))" for t1 t q
    using "3.IH"(2) [OF that(1) refl refl that(2)] .
  from "3.prems" consider "(tr, r) \<in> set (traces beh p)"
    | tr1 tr2 where "(tr1, Ok) \<in> set (traces beh p)" "(tr2, r) \<in> set (traces beh (Series ps))"
        "tr = tr1 @ tr2"
    unfolding traces_series_cons by blast
  then show ?case
  proof cases
    case 1
    from ihp [OF 1] show ?thesis by auto
  next
    case 2
    from ihp [OF 2(1)] ihs [OF 2(1,2)] 2(3) show ?thesis by auto
  qed
next
  case (4 beh)
  then show ?case by simp
next
  case (5 beh p ps)
  have ihp: "ev_task ` set t \<subseteq> set (tasks_of p)" if "(t, q) \<in> set (traces beh p)" for t q
    using "5.IH"(1) that .
  have ihs: "ev_task ` set t \<subseteq> set (tasks_of (Parallel ps))"
    if "(t1, q1) \<in> set (traces beh p)" "(t, q) \<in> set (traces beh (Parallel ps))" for t1 q1 t q
    using "5.IH"(2) [OF that(1) refl that(2)] .
  from traces_parallel_cons [OF "5.prems"] obtain tr1 r1 tr2 r2 where
    d: "(tr1, r1) \<in> set (traces beh p)" "(tr2, r2) \<in> set (traces beh (Parallel ps))"
       "tr \<in> set (interleave tr1 tr2)" by blast
  from d(3) have "set tr = set tr1 \<union> set tr2" by (rule set_interleave)
  with ihp [OF d(1)] ihs [OF d(1,2)] show ?case by auto
qed

lemma traces_completed:
  "(tr, Ok) \<in> set (traces beh p) \<Longrightarrow> a \<in> set (tasks_of p) \<Longrightarrow> Done a \<in> set tr"
proof (induction beh p arbitrary: tr rule: traces.induct)
  case (1 beh t)
  then show ?case by (cases "beh t") auto
next
  case (2 beh)
  then show ?case by simp
next
  case (3 beh p ps)
  have ihp: "Done a \<in> set t" if "(t, Ok) \<in> set (traces beh p)" "a \<in> set (tasks_of p)" for t
    using "3.IH"(1) that .
  have ihs: "Done a \<in> set t"
    if "(t1, Ok) \<in> set (traces beh p)" "(t, Ok) \<in> set (traces beh (Series ps))"
       "a \<in> set (tasks_of (Series ps))" for t1 t
    using "3.IH"(2) [OF that(1) refl refl that(2,3)] .
  from "3.prems"(1) obtain tr1 tr2 where
    d: "(tr1, Ok) \<in> set (traces beh p)" "(tr2, Ok) \<in> set (traces beh (Series ps))"
       "tr = tr1 @ tr2"
    unfolding traces_series_cons by blast
  from "3.prems"(2) consider "a \<in> set (tasks_of p)" | "a \<in> set (tasks_of (Series ps))" by auto
  then show ?case
  proof cases
    case 1
    from ihp [OF d(1) 1] d(3) show ?thesis by simp
  next
    case 2
    from ihs [OF d(1,2) 2] d(3) show ?thesis by simp
  qed
next
  case (4 beh)
  then show ?case by simp
next
  case (5 beh p ps)
  have ihp: "Done a \<in> set t" if "(t, Ok) \<in> set (traces beh p)" "a \<in> set (tasks_of p)" for t
    using "5.IH"(1) that .
  have ihs: "Done a \<in> set t"
    if "(t1, q1) \<in> set (traces beh p)" "(t, Ok) \<in> set (traces beh (Parallel ps))"
       "a \<in> set (tasks_of (Parallel ps))" for t1 q1 t
    using "5.IH"(2) [OF that(1) refl that(2,3)] .
  from traces_parallel_cons [OF "5.prems"(1)] obtain tr1 r1 tr2 r2 where
    d: "(tr1, r1) \<in> set (traces beh p)" "(tr2, r2) \<in> set (traces beh (Parallel ps))"
       "tr \<in> set (interleave tr1 tr2)" "Ok = join r1 r2" by blast
  from d(4) have ok: "r1 = Ok" "r2 = Ok" using join_Ok [of r1 r2] by simp_all
  from d(3) have st: "set tr = set tr1 \<union> set tr2" by (rule set_interleave)
  from "5.prems"(2) consider "a \<in> set (tasks_of p)" | "a \<in> set (tasks_of (Parallel ps))" by auto
  then show ?case
  proof cases
    case 1
    from ihp [OF d(1) [unfolded ok] 1] st show ?thesis by simp
  next
    case 2
    from ihs [OF d(1) d(2) [unfolded ok] 2] st show ?thesis by simp
  qed
qed


lemma not_started:
  assumes "(tr, r) \<in> set (traces beh p)" "b \<notin> set (tasks_of p)"
  shows "Start b \<notin> set tr"
proof
  assume "Start b \<in> set tr"
  then have "ev_task (Start b) \<in> ev_task ` set tr" by (rule imageI)
  with traces_tasks [OF assms(1)] assms(2) show False by auto
qed

lemma settled_before_append:
  assumes "Start b \<notin> set tr1"
  shows "settled_before a b (tr1 @ tr2) =
     (if Start b \<in> set tr2
      then Done a \<in> set tr1 \<or> Done a \<in> set (takeWhile (\<lambda>e. e \<noteq> Start b) tr2)
      else True)"
proof -
  have "takeWhile (\<lambda>e. e \<noteq> Start b) (tr1 @ tr2) = tr1 @ takeWhile (\<lambda>e. e \<noteq> Start b) tr2"
    using assms by (intro takeWhile_append2) auto
  with assms show ?thesis by (simp add: settled_before_def)
qed

lemma settled_before_absent: "Start b \<notin> set tr \<Longrightarrow> settled_before a b tr"
  by (simp add: settled_before_def)

lemma series_settled_before:
  assumes "(tr, r) \<in> set (traces beh (Series ps))"
    and "distinct (concat (map tasks_of ps))"
    and "Suc n < length ps"
    and "a \<in> set (tasks_of (ps ! n))" and "b \<in> set (tasks_of (ps ! Suc n))"
  shows "settled_before a b tr"
  using assms
proof (induction ps arbitrary: tr r n)
  case Nil
  then show ?case by simp
next
  case (Cons p ps)
  from Cons.prems(2) have dp: "distinct (concat (map tasks_of ps))"
    and disj: "set (tasks_of p) \<inter> set (concat (map tasks_of ps)) = {}"
    by simp_all
  from Cons.prems(3,5) have "b \<in> set (concat (map tasks_of ps))"
    by (cases n) (auto intro!: bexI [of _ "ps ! n"])
  with disj have bp: "b \<notin> set (tasks_of p)" by blast
  from Cons.prems(1) consider "(tr, r) \<in> set (traces beh p)"
    | tr1 tr2 where "(tr1, Ok) \<in> set (traces beh p)" "(tr2, r) \<in> set (traces beh (Series ps))"
        "tr = tr1 @ tr2"
    unfolding traces_series_cons by blast
  then show ?case
  proof cases
    case 1
    from not_started [OF 1 bp] show ?thesis by (rule settled_before_absent)
  next
    case 2
    have nb: "Start b \<notin> set tr1" using not_started [OF 2(1) bp] .
    show ?thesis
    proof (cases n)
      case 0
      with Cons.prems(4) have "a \<in> set (tasks_of p)" by simp
      with traces_completed [OF 2(1)] have "Done a \<in> set tr1" by blast
      with nb 2(3) show ?thesis by (simp add: settled_before_append)
    next
      case (Suc m)
      with Cons.prems(3,4,5) have "Suc m < length ps" "a \<in> set (tasks_of (ps ! m))"
        "b \<in> set (tasks_of (ps ! Suc m))" by simp_all
      from Cons.IH [OF 2(2) dp this] have "settled_before a b tr2" .
      then show ?thesis
        unfolding 2(3) settled_before_append [OF nb] by (simp add: settled_before_def)
    qed
  qed
qed

lemma series_stage_order:
  assumes "(tr, r) \<in> set (traces beh (Series ps))"
    and "distinct (concat (map tasks_of ps))"
  shows "stage_order (stages (Series ps)) tr"
proof -
  have "settled_before a b tr"
    if "n < length ps - 1" "a \<in> set (map tasks_of ps ! n)" "b \<in> set (map tasks_of ps ! Suc n)"
    for n a b
  proof -
    from that(1) have "Suc n < length ps" by simp
    moreover from this that(2,3) have "a \<in> set (tasks_of (ps ! n))" "b \<in> set (tasks_of (ps ! Suc n))"
      by simp_all
    ultimately show ?thesis using series_settled_before [OF assms] by blast
  qed
  then show ?thesis by (simp add: stage_order_def list_all_iff)
qed

lemma last_started_absent: "Start t \<notin> set tr \<Longrightarrow> last_started t tr"
proof -
  assume "Start t \<notin> set tr"
  then have d: "dropWhile (\<lambda>e. e \<noteq> Start t) tr = []" by (auto simp: dropWhile_eq_Nil_conv)
  show ?thesis unfolding last_started_def d by simp
qed

lemma last_started_append:
  assumes "Start t \<notin> set tr1"
  shows "last_started t (tr1 @ tr2) = last_started t tr2"
proof -
  have d: "dropWhile (\<lambda>e. e \<noteq> Start t) (tr1 @ tr2) = dropWhile (\<lambda>e. e \<noteq> Start t) tr2"
    using assms by (intro dropWhile_append2) auto
  show ?thesis unfolding last_started_def d ..
qed

lemma series_last_started:
  assumes "(tr, r) \<in> set (traces beh (Series (ps @ [Task t])))"
    and "t \<notin> set (concat (map tasks_of ps))"
  shows "last_started t tr"
  using assms
proof (induction ps arbitrary: tr r)
  case Nil
  from Nil(1) have "tr = [Start t, Done t] \<or> tr = [Start t, Failed t] \<or> tr = [Start t]"
    by (cases "beh t") auto
  then show ?case by (auto simp: last_started_def)
next
  case (Cons p ps)
  from Cons.prems(2) have tp: "t \<notin> set (tasks_of p)" and ts: "t \<notin> set (concat (map tasks_of ps))"
    by simp_all
  from Cons.prems(1) consider "(tr, r) \<in> set (traces beh p)"
    | tr1 tr2 where "(tr1, Ok) \<in> set (traces beh p)"
        "(tr2, r) \<in> set (traces beh (Series (ps @ [Task t])))" "tr = tr1 @ tr2"
    unfolding append_Cons traces_series_cons by blast
  then show ?case
  proof cases
    case 1
    from not_started [OF 1 tp] show ?thesis by (rule last_started_absent)
  next
    case 2
    from Cons.IH [OF 2(2) ts] not_started [OF 2(1) tp] 2(3) show ?thesis
      by (simp add: last_started_append)
  qed
qed

text \<open>
  Claim C1.  \<open>exports.build\<close> is the series of \<open>clean\<close>, the parallel stage of
  \<open>copy\<close> and \<open>images\<close>, and the parallel stage of \<open>html\<close>, \<open>style\<close> and
  \<open>buildJs\<close>.  In every order of events of every run, whatever the tasks' outcomes,
  a task of a stage starts only after every task of the stage before has signalled
  completion.  \<open>exports.default\<close> has the same three stages and then \<open>serve\<close>; no
  task starts after \<open>serve\<close> has started, and \<open>serve\<close> never signals completion.
\<close>

theorem pipeline_stage_order:
  "exports_build =
     Series [Task Clean, Parallel [Task Copy, Task Images],
             Parallel [Task Html, Task Style, Task BuildJs]]
   \<and> stages exports_build = [[Clean], [Copy, Images], [Html, Style, BuildJs]]
   \<and> (\<forall>(tr, r) \<in> set (traces beh exports_build). stage_order (stages exports_build) tr)
   \<and> exports_default =
     Series [Task Clean, Parallel [Task Copy, Task Images],
             Parallel [Task Html, Task Style, Task BuildJs], Task Serve]
   \<and> stages exports_default = [[Clean], [Copy, Images], [Html, Style, BuildJs], [Serve]]
   \<and> (\<forall>(tr, r) \<in> set (traces beh exports_default).
         stage_order (stages exports_default) tr \<and> last_started Serve tr)
   \<and> fst (serve e s) = Pending"
proof -
  have b: "stage_order (stages exports_build) tr" if "(tr, r) \<in> set (traces beh exports_build)" for tr r
    using that unfolding exports_build_def by (rule series_stage_order) simp
  have d: "stage_order (stages exports_default) tr" if "(tr, r) \<in> set (traces beh exports_default)" for tr r
    using that unfolding exports_default_def by (rule series_stage_order) simp
  have l: "last_started Serve tr" if "(tr, r) \<in> set (traces beh exports_default)" for tr r
  proof -
    from that have "(tr, r) \<in> set (traces beh (Series ([Task Clean, Parallel [Task Copy, Task Images],
             Parallel [Task Html, Task Style, Task BuildJs]] @ [Task Serve])))"
      by (simp only: exports_default_def append.simps)
    then show ?thesis by (rule series_last_started) simp
  qed
  have p: "fst (serve e s) = Pending" by (simp add: serve_def Let_def)
  have s1: "stages exports_build = [[Clean], [Copy, Images], [Html, Style, BuildJs]]"
    by (simp add: exports_build_def)
  have s2: "stages exports_default = [[Clean], [Copy, Images], [Html, Style, BuildJs], [Serve]]"
    by (simp add: exports_default_def)
  from b d l p s1 s2 show ?thesis
    by (auto simp only: exports_build_def exports_default_def)
qed

theorem pipeline_stage_order_witness:
  "([Start Clean, Done Clean, Start Copy, Start Images, Done Images, Done Copy,
     Start Html, Start Style, Start BuildJs, Done Style, Done Html, Done BuildJs], Ok)
     \<in> set (traces (\<lambda>t. Ok) exports_build)
   \<and> stage_order (stages exports_build)
       [Start Clean, Done Clean, Start Copy, Start Images, Done Images, Done Copy,
        Start Html, Start Style, Start BuildJs, Done Style, Done Html, Done BuildJs]"
proof -
  have m: "([Start Clean, Done Clean, Start Copy, Start Images, Done Images, Done Copy,
     Start Html, Start Style, Start BuildJs, Done Style, Done Html, Done BuildJs], Ok)
     \<in> set (traces (\<lambda>t. Ok) exports_build)"
    by (simp add: exports_build_def)
  with pipeline_stage_order [of "\<lambda>t. Ok"] show ?thesis by blast
qed

section \<open>clean\<close>

lemma seg_build [simp]: "seg_match ''build'' s = (s = ''build'')"
  by (rule seg_match_literal) (simp_all add: hidden_def)

lemma glob_build: "glob_match ''build'' q = (q = [''build''])"
  by (cases q; cases "tl q") (auto simp: glob_match_def segments_globs)

lemma under_build: "under ''build'' p = (take 1 p = [''build''])"
proof -
  have u: "under ''build'' p = (\<exists>k\<in>{1..<Suc (length p)}. take k p = [''build''])"
    by (simp only: under_def list_ex_iff glob_build set_upt)
  show ?thesis
  proof (cases p)
    case Nil
    then show ?thesis unfolding u by simp
  next
    case (Cons a rest)
    have "(\<exists>k\<in>{1..<Suc (length p)}. take k p = [''build'']) = (a = ''build'')"
    proof
      assume "\<exists>k\<in>{1..<Suc (length p)}. take k p = [''build'']"
      then obtain k where "1 \<le> k" "take k (a # rest) = [''build'']" using Cons by auto
      then show "a = ''build''" by (cases k) simp_all
    next
      assume "a = ''build''"
      with Cons have "(1::nat) \<in> {1..<Suc (length p)} \<and> take 1 p = [''build'']" by simp
      then show "\<exists>k\<in>{1..<Suc (length p)}. take k p = [''build'']" by blast
    qed
    with Cons show ?thesis unfolding u by simp
  qed
qed

text \<open>
  Claim C7.  When no file below \<open>build\<close> resists deletion, \<open>clean\<close> completes, and
  the state it completes with has no file below \<open>build\<close> left and every other file
  kept; running it again, on the now absent directory, completes and changes no file.  When a file below \<open>build\<close> cannot be deleted, \<open>clean\<close> fails, and so do
  \<open>exports.build\<close> and \<open>exports.default\<close>, without starting any other task.  When
  there is no file below \<open>build\<close> to begin with, \<open>clean\<close> completes whatever the
  environment.
\<close>

theorem clean_removes_output_tree:
  "(if list_ex (\<lambda>(p, c). under ''build'' p \<and> locked e p) (files s)
    then fst (clean e s) = Fatal
       \<and> fst (run e exports_build s) = Fatal \<and> log (snd (run e exports_build s)) = log s
       \<and> fst (run e exports_default s) = Fatal \<and> log (snd (run e exports_default s)) = log s
    else fst (clean e s) = Ok
       \<and> files (snd (clean e s)) = filter (\<lambda>(p, c). take 1 p \<noteq> [''build'']) (files s)
       \<and> list_all (\<lambda>(p, c). take 1 p \<noteq> [''build'']) (files (snd (clean e s)))
       \<and> fst (clean e (snd (clean e s))) = Ok
       \<and> files (snd (clean e (snd (clean e s)))) = files (snd (clean e s)))
   \<and> (if list_ex (\<lambda>(p, c). take 1 p = [''build'']) (files s) then True
       else fst (clean e s) = Ok \<and> files (snd (clean e s)) = files s)
   \<and> under ''build'' q = (take 1 q = [''build''])"
proof -
  let ?locked = "list_ex (\<lambda>(p, c). under ''build'' p \<and> locked e p) (files s)"
  have fatal: "clean e s = (Fatal, s)" if ?locked
    using that by (simp add: clean_def del_def)
  have b: "run e exports_build s = (Fatal, s)" if ?locked
    using fatal [OF that] by (simp add: exports_build_def)
  have d: "run e exports_default s = (Fatal, s)" if ?locked
    using fatal [OF that] by (simp add: exports_default_def)
  have ok: "fst (clean e s) = Ok"
    and fs: "files (snd (clean e s)) = filter (\<lambda>(p, c). take 1 p \<noteq> [''build'']) (files s)"
    if "\<not> ?locked"
    using that by (simp_all add: clean_def del_def under_build)
  have none: "list_all (\<lambda>(p, c). take 1 p \<noteq> [''build'']) (filter (\<lambda>(p, c). take 1 p \<noteq> [''build'']) (files s))"
    by (auto simp: list_all_iff)
  have again: "clean e t = (Ok, t\<lparr>log := log t @ [Deleted ''build'']\<rparr>)"
    if "list_all (\<lambda>(p, c). take 1 p \<noteq> [''build'']) (files t)" for t
  proof -
    from that have "\<not> list_ex (\<lambda>(p, c). under ''build'' p \<and> locked e p) (files t)"
      by (auto simp: list_all_iff list_ex_iff under_build)
    moreover from that have "filter (\<lambda>(p, c). \<not> under ''build'' p) (files t) = files t"
      by (auto simp: list_all_iff under_build intro!: filter_True)
    ultimately show ?thesis by (simp add: clean_def del_def)
  qed
  have twice: "fst (clean e (snd (clean e s))) = Ok
       \<and> files (snd (clean e (snd (clean e s)))) = files (snd (clean e s))" if "\<not> ?locked"
    using again [of "snd (clean e s)"] none fs [OF that] by simp
  have absent: "fst (clean e s) = Ok \<and> files (snd (clean e s)) = files s"
    if "\<not> list_ex (\<lambda>(p, c). take 1 p = [''build'']) (files s)"
  proof -
    from that have "list_all (\<lambda>(p, c). take 1 p \<noteq> [''build'']) (files s)"
      by (auto simp: list_all_iff list_ex_iff)
    from again [OF this] show ?thesis by simp
  qed
  show ?thesis
  proof (cases ?locked)
    case True
    then have "list_ex (\<lambda>(p, c). take 1 p = [''build'']) (files s)"
      by (auto simp: list_ex_iff under_build)
    with True fatal b d under_build [of q] show ?thesis by simp
  next
    case False
    with ok fs none twice absent under_build [of q] show ?thesis by simp
  qed
qed

theorem clean_removes_output_tree_witness:
  "fst (clean example_env \<lparr>files = example_files, log = []\<rparr>) = Ok
   \<and> files (snd (clean example_env \<lparr>files = example_files, log = []\<rparr>)) = butlast example_files
   \<and> fst (run (example_env\<lparr>locked := \<lambda>p. True\<rparr>) exports_build
        \<lparr>files = example_files, log = []\<rparr>) = Fatal"
  using clean_removes_output_tree [of example_env "\<lparr>files = example_files, log = []\<rparr>"]
    clean_removes_output_tree [of "example_env\<lparr>locked := \<lambda>p. True\<rparr>"
      "\<lparr>files = example_files, log = []\<rparr>"]
  by (simp add: example_env_def example_files_def under_build)

section \<open>Reading and writing files\<close>

lemma src_glob:
  assumes "is_glob g"
  shows "src [g] b fs =
     Some (map (\<lambda>(p, c). \<lparr>vbase = (case b of Some d \<Rightarrow> segments d | None \<Rightarrow> glob_parent g),
                          vrel = drop (length (case b of Some d \<Rightarrow> segments d | None \<Rightarrow> glob_parent g)) p,
                          vcontents = c\<rparr>)
            (filter (\<lambda>(p, c). glob_match g p) fs))"
proof -
  have "List.map_filter (\<lambda>(p, c).
             case find (\<lambda>g. glob_match g p) [g] of
               None \<Rightarrow> None
             | Some g \<Rightarrow>
                 (let b = (case b of Some d \<Rightarrow> segments d | None \<Rightarrow> glob_parent g)
                  in Some \<lparr>vbase = b, vrel = drop (length b) p, vcontents = c\<rparr>)) fs
     = map (\<lambda>(p, c). \<lparr>vbase = (case b of Some d \<Rightarrow> segments d | None \<Rightarrow> glob_parent g),
                          vrel = drop (length (case b of Some d \<Rightarrow> segments d | None \<Rightarrow> glob_parent g)) p,
                          vcontents = c\<rparr>)
            (filter (\<lambda>(p, c). glob_match g p) fs)"
    by (induction fs) (auto simp: map_filter_simps Let_def)
  then show ?thesis using assms by (simp add: src_def)
qed

lemma glob_parents:
  "glob_parent ''source/pages/*.pug'' = [''source'', ''pages'']"
  "glob_parent ''source/img/**/*.{png,jpg,svg}'' = [''source'', ''img'']"
  "glob_parent ''source/fonts/**/*.{woff,woff2,eot,ttf}'' = [''source'', ''fonts'']"
  "glob_parent ''source/less/style.less'' = [''source'', ''less'']"
  "glob_parent ''source/js/script.js'' = [''source'', ''js'']"
  by (simp_all add: glob_parent_def is_glob_def segments_globs)

lemma is_globs:
  "is_glob ''source/pages/*.pug''"
  "is_glob ''source/img/**/*.{png,jpg,svg}''"
  "is_glob ''source/fonts/**/*.{woff,woff2,eot,ttf}''"
  "\<not> is_glob ''source/less/style.less''"
  "\<not> is_glob ''source/js/script.js''"
  by (simp_all add: is_glob_def)


lemma src_singular:
  assumes "\<not> is_glob g" "list_ex (\<lambda>(p, c). glob_match g p) fs"
  shows "src [g] None fs =
     Some (map (\<lambda>(p, c). \<lparr>vbase = glob_parent g, vrel = drop (length (glob_parent g)) p,
                          vcontents = c\<rparr>)
            (filter (\<lambda>(p, c). glob_match g p) fs))"
proof -
  have "List.map_filter (\<lambda>(p, c).
             case find (\<lambda>g. glob_match g p) [g] of
               None \<Rightarrow> None
             | Some g \<Rightarrow>
                 (let b = (case None of Some d \<Rightarrow> segments d | None \<Rightarrow> glob_parent g)
                  in Some \<lparr>vbase = b, vrel = drop (length b) p, vcontents = c\<rparr>)) fs
     = map (\<lambda>(p, c). \<lparr>vbase = glob_parent g, vrel = drop (length (glob_parent g)) p,
                          vcontents = c\<rparr>)
            (filter (\<lambda>(p, c). glob_match g p) fs)"
    by (induction fs) (auto simp: map_filter_simps Let_def)
  then show ?thesis using assms by (simp add: src_def)
qed

lemma filter_key:
  "distinct (map fst xs) \<Longrightarrow> (k, v) \<in> set xs \<Longrightarrow> filter (\<lambda>(p, c). p = k) xs = [(k, v)]"
proof (induction xs)
  case Nil
  then show ?case by simp
next
  case (Cons x xs)
  obtain p c where x: "x = (p, c)" by (cases x)
  show ?case
  proof (cases "p = k")
    case True
    with Cons.prems x have "k \<notin> fst ` set xs" by simp
    then have "filter (\<lambda>(p, c). p = k) xs = []" by (force simp: filter_empty_conv image_iff)
    moreover from Cons.prems x True \<open>k \<notin> fst ` set xs\<close> have "c = v" by (force simp: image_iff)
    ultimately show ?thesis using x True by simp
  next
    case False
    with Cons x show ?thesis by auto
  qed
qed

lemma glob_style: "glob_match ''source/less/style.less'' p = (p = [''source'', ''less'', ''style.less''])"
proof -
  have "seg_match ''style.less'' x = (x = ''style.less'')" for x
    by (rule seg_match_literal) (simp_all add: hidden_def)
  then show ?thesis
    by (cases p; cases "tl p"; cases "tl (tl p)") (auto simp: glob_match_def segments_globs)
qed

lemma glob_script: "glob_match ''source/js/script.js'' p = (p = [''source'', ''js'', ''script.js''])"
proof -
  have "seg_match ''script.js'' x = (x = ''script.js'')" for x
    by (rule seg_match_literal) (simp_all add: hidden_def)
  then show ?thesis
    by (cases p; cases "tl p"; cases "tl (tl p)") (auto simp: glob_match_def segments_globs)
qed

lemma names:
  "replace_ext ''.css'' [''style.less''] = [''style.css'']"
  "add_suffix ''.min'' [''style.css''] = [''style.min.css'']"
  "add_suffix ''.min'' [''script.js''] = [''script.min.js'']"
  by (simp_all add: replace_ext_def add_suffix_def stem_def extname_def)

lemma entry_src:
  assumes "distinct (map fst fs)" "(k, c) \<in> set fs" "\<not> is_glob g" "\<And>p. glob_match g p = (p = k)"
  shows "src [g] None fs =
     Some [\<lparr>vbase = glob_parent g, vrel = drop (length (glob_parent g)) k, vcontents = c\<rparr>]"
proof -
  from assms(2,4) have "list_ex (\<lambda>(p, c). glob_match g p) fs" by (auto simp: list_ex_iff)
  from src_singular [OF assms(3) this] show ?thesis
    by (simp add: assms(4) filter_key [OF assms(1,2)])
qed

lemma files_fold_write:
  "files (fold (write_file d) vs s) =
     fold (\<lambda>v. AList.update (segments d @ vrel v) (vcontents v)) vs (files s)"
  by (induction vs arbitrary: s) (simp_all add: write_file_def)

lemma map_of_fold_update:
  "map_of (fold (\<lambda>v. AList.update (k v) (c v)) vs fs) =
     map_of fs ++ map_of (rev (map (\<lambda>v. (k v, c v)) vs))"
proof (induction vs arbitrary: fs)
  case Nil
  show ?case by simp
next
  case (Cons v vs)
  have "map_of (fold (\<lambda>v. AList.update (k v) (c v)) (v # vs) fs) =
        map_of (AList.update (k v) (c v) fs) ++ map_of (rev (map (\<lambda>v. (k v, c v)) vs))"
    using Cons.IH by simp
  also have "\<dots> = (map_of fs)(k v \<mapsto> c v) ++ map_of (rev (map (\<lambda>v. (k v, c v)) vs))"
    by (simp add: update_conv')
  also have "\<dots> = map_of fs ++ map_of (rev (map (\<lambda>v. (k v, c v)) (v # vs)))"
    by (simp add: map_add_upd_left fun_eq_iff map_add_def split: option.splits)
  finally show ?case .
qed

lemma seg_fonts_ext:
  "seg_match ''*.{woff,woff2,eot,ttf}'' f =
     (\<not> hidden f \<and>
      (ends_with ''.woff'' f \<or> ends_with ''.woff2'' f \<or> ends_with ''.eot'' f \<or> ends_with ''.ttf'' f))"
proof -
  have "expand_braces ''*.{woff,woff2,eot,ttf}'' = [''*.woff'', ''*.woff2'', ''*.eot'', ''*.ttf'']"
    by (simp add: expand_braces_def)
  then show ?thesis
    by (auto simp: seg_match_def wild_star_literal hidden_def)
qed

lemma match_deep:
  assumes "x \<noteq> ''**''" "a \<noteq> ''**''" "b \<noteq> ''**''"
  shows "match_segs [a, b, ''**'', x] p =
     (\<exists>p1 p2 ds f. p = p1 # p2 # ds @ [f] \<and> seg_match a p1 \<and> seg_match b p2 \<and>
        list_all (\<lambda>y. \<not> hidden y) ds \<and> seg_match x f)"
proof (cases p)
  case Nil
  with assms show ?thesis by simp
next
  case (Cons p1 q)
  show ?thesis
  proof (cases q)
    case Nil
    with Cons assms show ?thesis by simp
  next
    case (Cons p2 rest)
    show ?thesis
    proof (cases rest rule: rev_cases)
      case Nil
      with \<open>p = p1 # q\<close> \<open>q = p2 # rest\<close> assms show ?thesis by simp
    next
      case (snoc ds f)
      with \<open>p = p1 # q\<close> \<open>q = p2 # rest\<close> assms globstar_last [of x ds f] show ?thesis by simp
    qed
  qed
qed

lemma fonts_glob:
  "glob_match ''source/fonts/**/*.{woff,woff2,eot,ttf}'' p =
     (\<exists>ds f. p = ''source'' # ''fonts'' # ds @ [f] \<and> list_all (\<lambda>y. \<not> hidden y) (ds @ [f]) \<and>
        (ends_with ''.woff'' f \<or> ends_with ''.woff2'' f \<or> ends_with ''.eot'' f \<or> ends_with ''.ttf'' f))"
  unfolding glob_match_def segments_globs
  by (subst match_deep) (auto simp: seg_fonts_ext)

lemma images_glob:
  "glob_match ''source/img/**/*.{png,jpg,svg}'' p =
     (\<exists>ds f. p = ''source'' # ''img'' # ds @ [f] \<and> list_all (\<lambda>y. \<not> hidden y) (ds @ [f]) \<and>
        (ends_with ''.png'' f \<or> ends_with ''.jpg'' f \<or> ends_with ''.svg'' f))"
  unfolding glob_match_def segments_globs
  by (subst match_deep) (auto simp: seg_images)

lemma fold_write_lookup:
  assumes "distinct (map vrel ws)" "v \<in> set ws"
  shows "map_of (files (fold (write_file d) ws s)) (segments d @ vrel v) = Some (vcontents v)"
proof -
  let ?ps = "map (\<lambda>v. (segments d @ vrel v, vcontents v)) ws"
  have "map fst ?ps = map ((@) (segments d)) (map vrel ws)" by simp
  moreover have "distinct (map ((@) (segments d)) (map vrel ws))"
    using assms(1) by (simp only: distinct_map) (auto intro: inj_onI)
  ultimately have "distinct (map fst (rev ?ps))" by (simp only: rev_map [symmetric] distinct_rev)
  moreover have "(segments d @ vrel v, vcontents v) \<in> set (rev ?ps)" using assms(2) by auto
  ultimately have "map_of (rev ?ps) (segments d @ vrel v) = Some (vcontents v)"
    by (rule map_of_is_SomeI)
  then show ?thesis
    by (simp add: files_fold_write map_of_fold_update map_add_def)
qed

lemma fold_write_other:
  assumes "q \<notin> (\<lambda>v. segments d @ vrel v) ` set ws"
  shows "map_of (files (fold (write_file d) ws s)) q = map_of (files s) q"
proof -
  let ?ps = "map (\<lambda>v. (segments d @ vrel v, vcontents v)) ws"
  have "q \<notin> fst ` set (rev ?ps)" using assms by (auto simp: image_iff)
  then have "map_of (rev ?ps) q = None" by (rule map_of_eq_None_iff [THEN iffD2])
  then show ?thesis
    by (simp add: files_fold_write map_of_fold_update map_add_def)
qed

lemma distinct_rel:
  assumes "distinct (map fst fs)" and "\<And>p. P p \<Longrightarrow> take n p = b"
  shows "distinct (map (\<lambda>(p, c). drop n p) (filter (\<lambda>(p, c). P p) fs))"
proof -
  have "map (\<lambda>(p, c). drop n p) (filter (\<lambda>(p, c). P p) fs) = map (drop n) (filter P (map fst fs))"
    by (induction fs) auto
  moreover have "distinct (map (drop n) (filter P (map fst fs)))"
  proof (simp only: distinct_map, intro conjI inj_onI)
    show "distinct (filter P (map fst fs))" using assms(1) by simp
  next
    fix x y assume "x \<in> set (filter P (map fst fs))" "y \<in> set (filter P (map fst fs))"
      "drop n x = drop n y"
    then have "take n x = take n y" "drop n x = drop n y" using assms(2) by auto
    then show "x = y" by (metis append_take_drop_id)
  qed
  ultimately show ?thesis by simp
qed

lemma update_keeps:
  "(p, c) \<in> set al \<Longrightarrow> k \<noteq> p \<Longrightarrow> (p, c) \<in> set (AList.update k v al)"
  by (induction al) auto

lemma fold_write_keeps:
  assumes "(p, c) \<in> set (files s)" and "take (length (segments d)) p \<noteq> segments d"
  shows "(p, c) \<in> set (files (fold (write_file d) ws s))"
  using assms(1)
proof (induction ws arbitrary: s)
  case Nil
  then show ?case by simp
next
  case (Cons w ws)
  from assms(2) have "segments d @ vrel w \<noteq> p" by auto
  with Cons.prems have "(p, c) \<in> set (files (write_file d w s))"
    by (simp add: write_file_def update_keeps)
  from Cons.IH [OF this] show ?case by simp
qed

lemma update_in_build:
  "take 1 k = [''build''] \<Longrightarrow>
   filter (\<lambda>(p, c). take 1 p \<noteq> [''build'']) (AList.update k v fs) =
   filter (\<lambda>(p, c). take 1 p \<noteq> [''build'']) fs"
  by (induction fs) auto

lemma fold_write_in_build:
  assumes "take 1 (segments d) = [''build'']"
  shows "filter (\<lambda>(p, c). take 1 p \<noteq> [''build'']) (files (fold (write_file d) vs s)) =
         filter (\<lambda>(p, c). take 1 p \<noteq> [''build'']) (files s)"
proof (induction vs arbitrary: s)
  case Nil
  show ?case by simp
next
  case (Cons v vs)
  from assms have k: "take 1 (segments d @ vrel v) = [''build'']"
    by (cases "segments d") simp_all
  have w: "files (write_file d v s) =
             AList.update (segments d @ vrel v) (vcontents v) (files s)"
    by (simp add: write_file_def)
  have "filter (\<lambda>(p, c). take 1 p \<noteq> [''build'']) (files (write_file d v s)) =
             filter (\<lambda>(p, c). take 1 p \<noteq> [''build'']) (files s)"
    unfolding w by (rule update_in_build [OF k])
  with Cons.IH [of "write_file d v s"] show ?case by simp
qed

lemma log_fold_write:
  "log (fold (write_file d) vs s) = log s @ map (\<lambda>v. Wrote (segments d @ vrel v)) vs"
  by (induction vs arbitrary: s) (simp_all add: write_file_def)

lemma no_notification_reported: "filter is_notification (map Reported ps) = []"
  by (induction ps) (simp_all add: is_notification_def)

lemma no_notification_reported_comp: "filter is_notification (map (Reported \<circ> g) vs) = []"
  by (induction vs) (simp_all add: is_notification_def)

lemma no_notification_wrote: "filter is_notification (map (\<lambda>v. Wrote (k v)) vs) = []"
  by (induction vs) (simp_all add: is_notification_def)

section \<open>Files through a pipeline\<close>

lemma feed_outcome: "fst (feed e pl sts v s) = Ok \<or> fst (feed e pl sts v s) = Fatal"
  by (induction e pl sts v s rule: feed.induct) (auto split: option.splits)

lemma feed_plumbed: "pl \<Longrightarrow> fst (feed e pl sts v s) = Ok"
  by (induction e pl sts v s rule: feed.induct) (auto split: option.splits)

lemma feed_cong:
  "files s = files t \<Longrightarrow>
   fst (feed e pl sts v s) = fst (feed e pl sts v t) \<and>
   fst (snd (feed e pl sts v s)) = fst (snd (feed e pl sts v t)) \<and>
   files (snd (snd (feed e pl sts v s))) = files (snd (snd (feed e pl sts v t)))"
proof (induction e pl sts v s arbitrary: t rule: feed.induct)
  case (1 e pl v s)
  then show ?case by simp
next
  case (2 e pl ss v s)
  then show ?case by simp
next
  case (3 e pl tl ss v s)
  show ?case
  proof (cases "through e tl (files s) v")
    case None
    with "3.prems" show ?thesis by (simp add: say_def)
  next
    case (Some w)
    from "3.IH" [OF Some "3.prems"] Some "3.prems" show ?thesis by simp
  qed
next
  case (4 e pl cfg ss v s)
  then show ?case by simp
next
  case (5 e pl d ss v s)
  have "files (write_file d v s) = files (write_file d v t)"
    using "5.prems" by (simp add: write_file_def)
  from "5.IH" [OF this] show ?case by simp
next
  case (6 e pl sfx ss v s)
  then show ?case by simp
next
  case (7 e pl ss v s)
  have "files (say [Notified (vpath v)] s) = files (say [Notified (vpath v)] t)"
    using "7.prems" by (simp add: say_def)
  from "7.IH" [OF this] show ?case by simp
qed

lemma feed_in_build:
  "(\<And>d. Dest d \<in> set sts \<Longrightarrow> take 1 (segments d) = [''build'']) \<Longrightarrow>
   filter (\<lambda>(p, c). take 1 p \<noteq> [''build'']) (files (snd (snd (feed e pl sts v s)))) =
   filter (\<lambda>(p, c). take 1 p \<noteq> [''build'']) (files s)"
proof (induction e pl sts v s rule: feed.induct)
  case (1 e pl v s)
  show ?case by simp
next
  case (2 e pl ss v s)
  then show ?case by simp
next
  case (3 e pl t ss v s)
  then show ?case by (cases "through e t (files s) v") (simp_all add: say_def)
next
  case (4 e pl cfg ss v s)
  show ?case by simp
next
  case (5 e pl d ss v s)
  from "5.prems" have "take 1 (segments d) = [''build'']" by simp
  from fold_write_in_build [OF this, of "[v]" s] "5.IH" "5.prems" show ?case by simp
next
  case (6 e pl sfx ss v s)
  then show ?case by simp
next
  case (7 e pl ss v s)
  then show ?case by (simp add: say_def)
qed

lemma feed_silent:
  "ServerStream \<notin> set sts \<Longrightarrow>
   filter is_notification (log (snd (snd (feed e pl sts v s)))) = filter is_notification (log s)"
proof (induction e pl sts v s rule: feed.induct)
  case (1 e pl v s)
  show ?case by simp
next
  case (2 e pl ss v s)
  then show ?case by simp
next
  case (3 e pl t ss v s)
  then show ?case
    by (cases "through e t (files s) v") (simp_all add: say_def is_notification_def)
next
  case (4 e pl cfg ss v s)
  show ?case by simp
next
  case (5 e pl d ss v s)
  then show ?case by (simp add: write_file_def is_notification_def)
next
  case (6 e pl sfx ss v s)
  then show ?case by simp
next
  case (7 e pl ss v s)
  then show ?case by simp
qed

lemma feed_all_outcome: "fst (feed_all e pl sts vs s) = Ok \<or> fst (feed_all e pl sts vs s) = Fatal"
proof (induction vs arbitrary: s)
  case Nil
  show ?case by simp
next
  case (Cons v vs)
  obtain q r s' where f: "feed e pl sts v s = (q, r, s')" by (cases "feed e pl sts v s")
  obtain q2 ws s'' where g: "feed_all e pl sts vs s' = (q2, ws, s'')"
    by (cases "feed_all e pl sts vs s'")
  from feed_outcome [of e pl sts v s] f have "q = Ok \<or> q = Fatal" by simp
  with Cons [of s'] f g show ?case by auto
qed

lemma feed_all_plumbed: "pl \<Longrightarrow> fst (feed_all e pl sts vs s) = Ok"
proof (induction vs arbitrary: s)
  case Nil
  show ?case by simp
next
  case (Cons v vs)
  obtain q r s' where f: "feed e pl sts v s = (q, r, s')" by (cases "feed e pl sts v s")
  obtain q2 ws s'' where g: "feed_all e pl sts vs s' = (q2, ws, s'')"
    by (cases "feed_all e pl sts vs s'")
  from feed_plumbed [OF Cons.prems, of e sts v s] f have "q = Ok" by simp
  with Cons.IH [OF Cons.prems, of s'] f g show ?case by simp
qed

lemma feed_all_cong:
  "files s = files t \<Longrightarrow>
   fst (feed_all e pl sts vs s) = fst (feed_all e pl sts vs t) \<and>
   fst (snd (feed_all e pl sts vs s)) = fst (snd (feed_all e pl sts vs t)) \<and>
   files (snd (snd (feed_all e pl sts vs s))) = files (snd (snd (feed_all e pl sts vs t)))"
proof (induction vs arbitrary: s t)
  case Nil
  then show ?case by simp
next
  case (Cons v vs)
  obtain q r s' where f: "feed e pl sts v s = (q, r, s')" by (cases "feed e pl sts v s")
  obtain q' r' t' where f': "feed e pl sts v t = (q', r', t')" by (cases "feed e pl sts v t")
  from feed_cong [OF Cons.prems, of e pl sts v] f f'
  have eq: "q' = q" "r' = r" "files s' = files t'" by simp_all
  obtain q2 ws s'' where g: "feed_all e pl sts vs s' = (q2, ws, s'')"
    by (cases "feed_all e pl sts vs s'")
  obtain q3 ws' t'' where g': "feed_all e pl sts vs t' = (q3, ws', t'')"
    by (cases "feed_all e pl sts vs t'")
  from Cons.IH [OF eq(3)] g g' have eq2: "q3 = q2" "ws' = ws" "files s'' = files t''" by simp_all
  from feed_outcome [of e pl sts v s] f have "q = Ok \<or> q = Fatal" by simp
  then show ?case
  proof
    assume "q = Ok"
    with f f' g g' eq eq2 show ?thesis by simp
  next
    assume "q = Fatal"
    with f f' eq show ?thesis by simp
  qed
qed

lemma feed_all_in_build:
  assumes "\<And>d. Dest d \<in> set sts \<Longrightarrow> take 1 (segments d) = [''build'']"
  shows "filter (\<lambda>(p, c). take 1 p \<noteq> [''build'']) (files (snd (snd (feed_all e pl sts vs s)))) =
         filter (\<lambda>(p, c). take 1 p \<noteq> [''build'']) (files s)"
proof (induction vs arbitrary: s)
  case Nil
  show ?case by simp
next
  case (Cons v vs)
  obtain q r s' where f: "feed e pl sts v s = (q, r, s')" by (cases "feed e pl sts v s")
  obtain q2 ws s'' where g: "feed_all e pl sts vs s' = (q2, ws, s'')"
    by (cases "feed_all e pl sts vs s'")
  from feed_in_build [of sts e pl v s, OF assms] f
  have a: "filter (\<lambda>(p, c). take 1 p \<noteq> [''build'']) (files s') =
           filter (\<lambda>(p, c). take 1 p \<noteq> [''build'']) (files s)" by simp
  from Cons [of s'] g
  have b: "filter (\<lambda>(p, c). take 1 p \<noteq> [''build'']) (files s'') =
           filter (\<lambda>(p, c). take 1 p \<noteq> [''build'']) (files s')" by simp
  from feed_outcome [of e pl sts v s] f have "q = Ok \<or> q = Fatal" by simp
  with f g a b show ?case by auto
qed

lemma feed_all_silent:
  assumes "ServerStream \<notin> set sts"
  shows "filter is_notification (log (snd (snd (feed_all e pl sts vs s)))) =
         filter is_notification (log s)"
proof (induction vs arbitrary: s)
  case Nil
  show ?case by simp
next
  case (Cons v vs)
  obtain q r s' where f: "feed e pl sts v s = (q, r, s')" by (cases "feed e pl sts v s")
  obtain q2 ws s'' where g: "feed_all e pl sts vs s' = (q2, ws, s'')"
    by (cases "feed_all e pl sts vs s'")
  from feed_silent [OF assms, of e pl v s] f
  have a: "filter is_notification (log s') = filter is_notification (log s)" by simp
  from Cons [of s'] g
  have b: "filter is_notification (log s'') = filter is_notification (log s')" by simp
  from feed_outcome [of e pl sts v s] f have "q = Ok \<or> q = Fatal" by simp
  with f g a b show ?case by auto
qed

lemma run_stages_plain:
  "(\<And>cfg. WebpackStream cfg \<notin> set sts) \<Longrightarrow>
   run_stages e pl leg sts vs s =
     (case feed_all e pl (leg @ sts) vs s of (r, ws, s') \<Rightarrow> (r, s'))"
proof (induction sts arbitrary: leg)
  case Nil
  show ?case by simp
next
  case (Cons x sts)
  from Cons.prems have nb: "\<And>cfg. WebpackStream cfg \<notin> set sts" by auto
  from Cons.prems have "\<And>cfg. x \<noteq> WebpackStream cfg" by auto
  then have "run_stages e pl leg (x # sts) vs s = run_stages e pl (leg @ [x]) sts vs s"
    by (cases x) auto
  with Cons.IH [OF nb, of "leg @ [x]"] show ?case by simp
qed

lemma feed_all_dest:
  "feed_all e pl [Dest d] vs s =
     (Ok, map (\<lambda>v. v\<lparr>vbase := segments d\<rparr>) vs, fold (write_file d) vs s)"
  by (induction vs arbitrary: s) simp_all

lemma run_stages_shift:
  "(\<And>cfg. x \<noteq> WebpackStream cfg) \<Longrightarrow>
   run_stages e pl leg (x # sts) vs s = run_stages e pl (leg @ [x]) sts vs s"
  by (cases x) auto

lemma run_stages_cong:
  "files s = files t \<Longrightarrow>
   fst (run_stages e pl leg sts vs s) = fst (run_stages e pl leg sts vs t) \<and>
   files (snd (run_stages e pl leg sts vs s)) = files (snd (run_stages e pl leg sts vs t))"
proof (induction sts arbitrary: leg pl vs s t)
  case Nil
  obtain q ws s' where f: "feed_all e pl leg vs s = (q, ws, s')"
    by (cases "feed_all e pl leg vs s")
  obtain q' ws' t' where f': "feed_all e pl leg vs t = (q', ws', t')"
    by (cases "feed_all e pl leg vs t")
  from feed_all_cong [OF Nil, of e pl leg vs] f f' show ?case by simp
next
  case (Cons x sts)
  show ?case
  proof (cases "\<exists>cfg. x = WebpackStream cfg")
    case False
    then have "\<And>cfg. x \<noteq> WebpackStream cfg" by blast
    from run_stages_shift [OF this] Cons.IH [OF Cons.prems] show ?thesis by simp
  next
    case True
    then obtain cfg where x: "x = WebpackStream cfg" by blast
    obtain q ws s' where f: "feed_all e pl leg vs s = (q, ws, s')"
      by (cases "feed_all e pl leg vs s")
    obtain q' ws' t' where f': "feed_all e pl leg vs t = (q', ws', t')"
      by (cases "feed_all e pl leg vs t")
    from feed_all_cong [OF Cons.prems, of e pl leg vs] f f'
    have eq: "q' = q" "ws' = ws" "files s' = files t'" by simp_all
    from feed_all_outcome [of e pl leg vs s] f have "q = Ok \<or> q = Fatal" by simp
    then show ?thesis
    proof
      assume q: "q = Fatal"
      with x f f' eq show ?thesis by simp
    next
      assume q: "q = Ok"
      show ?thesis
      proof (cases "webpack e cfg (files t') ws")
        case (Some c)
        with x f f' eq q Cons.IH [OF eq(3)] show ?thesis by (simp add: Let_def)
      next
        case None
        have "files (say (map (Reported \<circ> vpath) ws) s') =
              files (say (map (Reported \<circ> vpath) ws) t')"
          using eq(3) by (simp add: say_def)
        from Cons.IH [OF this] None x f f' eq q show ?thesis by (simp add: Let_def)
      qed
    qed
  qed
qed

lemma run_stages_in_build:
  "(\<And>d. Dest d \<in> set leg \<union> set sts \<Longrightarrow> take 1 (segments d) = [''build'']) \<Longrightarrow>
   filter (\<lambda>(p, c). take 1 p \<noteq> [''build'']) (files (snd (run_stages e pl leg sts vs s))) =
   filter (\<lambda>(p, c). take 1 p \<noteq> [''build'']) (files s)"
proof (induction sts arbitrary: leg pl vs s)
  case Nil
  obtain q ws s' where f: "feed_all e pl leg vs s = (q, ws, s')"
    by (cases "feed_all e pl leg vs s")
  from feed_all_in_build [of leg e pl vs s] Nil f show ?case by simp
next
  case (Cons x sts)
  show ?case
  proof (cases "\<exists>cfg. x = WebpackStream cfg")
    case False
    then have n: "\<And>cfg. x \<noteq> WebpackStream cfg" by blast
    have "filter (\<lambda>(p, c). take 1 p \<noteq> [''build''])
            (files (snd (run_stages e pl (leg @ [x]) sts vs s))) =
          filter (\<lambda>(p, c). take 1 p \<noteq> [''build'']) (files s)"
      using Cons.prems by (intro Cons.IH) auto
    with run_stages_shift [OF n] show ?thesis by simp
  next
    case True
    then obtain cfg where x: "x = WebpackStream cfg" by blast
    obtain q ws s' where f: "feed_all e pl leg vs s = (q, ws, s')"
      by (cases "feed_all e pl leg vs s")
    from feed_all_in_build [of leg e pl vs s] Cons.prems f
    have a: "filter (\<lambda>(p, c). take 1 p \<noteq> [''build'']) (files s') =
             filter (\<lambda>(p, c). take 1 p \<noteq> [''build'']) (files s)" by simp
    have ih: "filter (\<lambda>(p, c). take 1 p \<noteq> [''build''])
                (files (snd (run_stages e pl2 [] sts ws2 s2))) =
              filter (\<lambda>(p, c). take 1 p \<noteq> [''build'']) (files s2)" for pl2 ws2 s2
      using Cons.prems by (intro Cons.IH) auto
    from feed_all_outcome [of e pl leg vs s] f have "q = Ok \<or> q = Fatal" by simp
    then show ?thesis
    proof
      assume "q = Fatal"
      with x f a show ?thesis by simp
    next
      assume q: "q = Ok"
      show ?thesis
      proof (cases "webpack e cfg (files s') ws")
        case (Some c)
        with x f q a ih show ?thesis by (simp add: Let_def)
      next
        case None
        with x f q a ih [of _ _ "say (map (Reported \<circ> vpath) ws) s'"] show ?thesis
          by (auto simp: say_def Let_def)
      qed
    qed
  qed
qed

lemma run_stages_silent:
  "ServerStream \<notin> set leg \<union> set sts \<Longrightarrow>
   filter is_notification (log (snd (run_stages e pl leg sts vs s))) =
   filter is_notification (log s)"
proof (induction sts arbitrary: leg pl vs s)
  case Nil
  obtain q ws s' where f: "feed_all e pl leg vs s = (q, ws, s')"
    by (cases "feed_all e pl leg vs s")
  from feed_all_silent [of leg e pl vs s] Nil f show ?case by simp
next
  case (Cons x sts)
  show ?case
  proof (cases "\<exists>cfg. x = WebpackStream cfg")
    case False
    then have n: "\<And>cfg. x \<noteq> WebpackStream cfg" by blast
    have "filter is_notification (log (snd (run_stages e pl (leg @ [x]) sts vs s))) =
          filter is_notification (log s)"
      using Cons.prems by (intro Cons.IH) auto
    with run_stages_shift [OF n] show ?thesis by simp
  next
    case True
    then obtain cfg where x: "x = WebpackStream cfg" by blast
    obtain q ws s' where f: "feed_all e pl leg vs s = (q, ws, s')"
      by (cases "feed_all e pl leg vs s")
    from feed_all_silent [of leg e pl vs s] Cons.prems f
    have a: "filter is_notification (log s') = filter is_notification (log s)" by simp
    have ih: "filter is_notification (log (snd (run_stages e pl2 [] sts ws2 s2))) =
              filter is_notification (log s2)" for pl2 ws2 s2
      using Cons.prems by (intro Cons.IH) auto
    from feed_all_outcome [of e pl leg vs s] f have "q = Ok \<or> q = Fatal" by simp
    then show ?thesis
    proof
      assume "q = Fatal"
      with x f a show ?thesis by simp
    next
      assume q: "q = Ok"
      show ?thesis
      proof (cases "webpack e cfg (files s') ws")
        case (Some c)
        with x f q a ih show ?thesis by (simp add: Let_def)
      next
        case None
        with x f q a ih [of _ _ "say (map (Reported \<circ> vpath) ws) s'"] show ?thesis
          by (auto simp: say_def Let_def no_notification_reported_comp)
      qed
    qed
  qed
qed

lemma feed_all_ok:
  "(\<And>v s. v \<in> set vs \<Longrightarrow> fst (feed e pl sts v s) = Ok) \<Longrightarrow> fst (feed_all e pl sts vs s) = Ok"
proof (induction vs arbitrary: s)
  case Nil
  show ?case by simp
next
  case (Cons v vs)
  obtain q r s' where f: "feed e pl sts v s = (q, r, s')" by (cases "feed e pl sts v s")
  obtain q2 ws s'' where g: "feed_all e pl sts vs s' = (q2, ws, s'')"
    by (cases "feed_all e pl sts vs s'")
  from Cons.prems [of v s] f have "q = Ok" by simp
  moreover from Cons.IH [of s'] Cons.prems g have "q2 = Ok" by simp
  ultimately show ?case using f g by simp
qed

lemma feed_all_fatal:
  assumes "\<And>s. fst (feed e pl sts v0 s) = Fatal" and "v0 \<in> set vs"
  shows "fst (feed_all e pl sts vs s) = Fatal"
  using assms(2)
proof (induction vs arbitrary: s)
  case Nil
  then show ?case by simp
next
  case (Cons v vs)
  obtain q r s' where f: "feed e pl sts v s = (q, r, s')" by (cases "feed e pl sts v s")
  obtain q2 ws s'' where g: "feed_all e pl sts vs s' = (q2, ws, s'')"
    by (cases "feed_all e pl sts vs s'")
  from feed_outcome [of e pl sts v s] f have "q = Ok \<or> q = Fatal" by simp
  then show ?case
  proof
    assume "q = Fatal"
    with f show ?thesis by simp
  next
    assume q: "q = Ok"
    with assms(1) [of s] f have "v \<noteq> v0" by auto
    with Cons.prems have "v0 \<in> set vs" by simp
    from Cons.IH [OF this, of s'] g q f show ?thesis by simp
  qed
qed

lemma feed_all_persist:
  assumes "\<And>v s. v \<in> set vs \<Longrightarrow>
      files (snd (snd (feed e pl sts v s))) = files s \<or>
      (\<exists>c. files (snd (snd (feed e pl sts v s))) = AList.update (key v) c (files s))"
    and "k \<notin> key ` set vs"
  shows "map_of (files (snd (snd (feed_all e pl sts vs s)))) k = map_of (files s) k"
  using assms
proof (induction vs arbitrary: s)
  case Nil
  show ?case by simp
next
  case (Cons v vs)
  obtain q r s' where f: "feed e pl sts v s = (q, r, s')" by (cases "feed e pl sts v s")
  obtain q2 ws s'' where g: "feed_all e pl sts vs s' = (q2, ws, s'')"
    by (cases "feed_all e pl sts vs s'")
  from Cons.prems(2) have kv: "k \<noteq> key v" and kvs: "k \<notin> key ` set vs" by auto
  from Cons.prems(1) [of v s] f
  have "files s' = files s \<or> (\<exists>c. files s' = AList.update (key v) c (files s))" by simp
  with kv have a: "map_of (files s') k = map_of (files s) k"
    by (auto simp: update_conv')
  have "map_of (files (snd (snd (feed_all e pl sts vs s')))) k = map_of (files s') k"
    using Cons.prems(1) kvs by (intro Cons.IH) auto
  with g have b: "map_of (files s'') k = map_of (files s') k" by simp
  from feed_outcome [of e pl sts v s] f have "q = Ok \<or> q = Fatal" by simp
  with f g a b show ?case by auto
qed

lemma feed_all_each:
  assumes ok: "\<And>v s. v \<in> set vs \<Longrightarrow> fst (feed e pl sts v s) = Ok"
    and step: "\<And>v s. v \<in> set vs \<Longrightarrow>
      files (snd (snd (feed e pl sts v s))) = files s \<or>
      (\<exists>c. files (snd (snd (feed e pl sts v s))) = AList.update (key v) c (files s))"
    and nb: "\<And>v s. filter (\<lambda>(p, c). take 1 p \<noteq> [''build'']) (files (snd (snd (feed e pl sts v s)))) =
                     filter (\<lambda>(p, c). take 1 p \<noteq> [''build'']) (files s)"
    and post: "\<And>s. map_of (files (snd (snd (feed e pl sts v0 s)))) (key v0) = R (files s)"
    and mem: "v0 \<in> set vs" and dist: "distinct (map key vs)"
  shows "\<exists>fs'. filter (\<lambda>(p, c). take 1 p \<noteq> [''build'']) fs' =
               filter (\<lambda>(p, c). take 1 p \<noteq> [''build'']) (files s) \<and>
          map_of (files (snd (snd (feed_all e pl sts vs s)))) (key v0) = R fs'"
  using ok step mem dist
proof (induction vs arbitrary: s)
  case Nil
  then show ?case by simp
next
  case (Cons v vs)
  obtain q r s' where f: "feed e pl sts v s = (q, r, s')" by (cases "feed e pl sts v s")
  obtain q2 ws s'' where g: "feed_all e pl sts vs s' = (q2, ws, s'')"
    by (cases "feed_all e pl sts vs s'")
  from Cons.prems(1) [of v s] f have q: "q = Ok" by simp
  from q f g have fin: "snd (snd (feed_all e pl sts (v # vs) s)) = s''" by simp
  from nb [of v s] f
  have nbs: "filter (\<lambda>(p, c). take 1 p \<noteq> [''build'']) (files s') =
             filter (\<lambda>(p, c). take 1 p \<noteq> [''build'']) (files s)" by simp
  show ?case
  proof (cases "v0 = v")
    case True
    from Cons.prems(4) True have "key v0 \<notin> key ` set vs" by auto
    then have "map_of (files (snd (snd (feed_all e pl sts vs s')))) (key v0) =
               map_of (files s') (key v0)"
      using Cons.prems(2) by (intro feed_all_persist) auto
    with g have "map_of (files s'') (key v0) = map_of (files s') (key v0)" by simp
    also from post [of s] f True have "\<dots> = R (files s)" by simp
    finally show ?thesis unfolding fin by blast
  next
    case False
    with Cons.prems(3) have m: "v0 \<in> set vs" by simp
    have "\<exists>fs'. filter (\<lambda>(p, c). take 1 p \<noteq> [''build'']) fs' =
               filter (\<lambda>(p, c). take 1 p \<noteq> [''build'']) (files s') \<and>
          map_of (files (snd (snd (feed_all e pl sts vs s')))) (key v0) = R fs'"
      using Cons.prems(1,2,4) m by (intro Cons.IH) auto
    with g nbs show ?thesis unfolding fin by simp
  qed
qed

section \<open>copy\<close>

lemma copy_eq:
  "copy e s =
     (Ok, fold (write_file ''build'')
            (map (\<lambda>(p, c). \<lparr>vbase = [''source''], vrel = tl p, vcontents = c\<rparr>)
              (filter (\<lambda>(p, c). glob_match ''source/fonts/**/*.{woff,woff2,eot,ttf}'' p) (files s))) s)"
  by (simp add: copy_def stream_task_def copy_globs_def copy_stages_def src_glob is_globs
        segments_globs drop_Suc feed_all_dest)

text \<open>
  Claim C6, amended.  \<open>copy\<close> selects the files matched by
  \<open>source/fonts/**/*.{woff,woff2,eot,ttf}\<close>: the files at any depth below
  \<open>source/fonts\<close> (not below the whole source tree) whose name ends in one of the four
  extensions, no directory or file name on the way starting with a dot.  It completes,
  writes each selected file with its contents unchanged to \<open>build\<close> followed by the
  path relative to \<open>source\<close>, and leaves every other path as it was.
\<close>

theorem copy_mirrors_fonts:
  assumes "distinct (map fst (files s))"
  shows "fst (copy e s) = Ok
   \<and> (\<forall>(p, c) \<in> set (files s).
        if glob_match ''source/fonts/**/*.{woff,woff2,eot,ttf}'' p
        then map_of (files (snd (copy e s))) (''build'' # tl p) = Some c else True)
   \<and> (if q \<in> (\<lambda>p. ''build'' # tl p) `
              {p \<in> fst ` set (files s). glob_match ''source/fonts/**/*.{woff,woff2,eot,ttf}'' p}
       then True else map_of (files (snd (copy e s))) q = map_of (files s) q)
   \<and> list_ex (\<lambda>g. glob_match g r) copy_globs =
       (\<exists>ds f. r = ''source'' # ''fonts'' # ds @ [f] \<and> list_all (\<lambda>y. \<not> hidden y) (ds @ [f]) \<and>
          (ends_with ''.woff'' f \<or> ends_with ''.woff2'' f \<or> ends_with ''.eot'' f \<or>
           ends_with ''.ttf'' f))"
proof -
  let ?G = "''source/fonts/**/*.{woff,woff2,eot,ttf}''"
  let ?ws = "map (\<lambda>(p, c). \<lparr>vbase = [''source''], vrel = tl p, vcontents = c\<rparr>)
              (filter (\<lambda>(p, c). glob_match ?G p) (files s))"
  have fs: "files (snd (copy e s)) = files (fold (write_file ''build'') ?ws s)"
    by (simp add: copy_eq)
  have src1: "take 1 p = [''source'']" if "glob_match ?G p" for p
    using that by (auto simp: fonts_glob)
  have r: "map vrel ?ws = map (\<lambda>(p, c). drop 1 p) (filter (\<lambda>(p, c). glob_match ?G p) (files s))"
    by (simp add: comp_def case_prod_beta drop_Suc)
  have d: "distinct (map vrel ?ws)"
    unfolding r by (rule distinct_rel [of "files s" "glob_match ?G" 1 "[''source'']", OF assms src1])
  have a: "map_of (files (snd (copy e s))) (''build'' # tl p) = Some c"
    if "(p, c) \<in> set (files s)" "glob_match ?G p" for p c
  proof -
    from that have "\<lparr>vbase = [''source''], vrel = tl p, vcontents = c\<rparr> \<in> set ?ws" by force
    from fold_write_lookup [OF d this, of "''build''" s] show ?thesis
      by (simp add: fs segments_globs)
  qed
  have b: "map_of (files (snd (copy e s))) q = map_of (files s) q"
    if "q \<notin> (\<lambda>p. ''build'' # tl p) ` {p \<in> fst ` set (files s). glob_match ?G p}"
  proof -
    from that have "q \<notin> (\<lambda>v. segments ''build'' @ vrel v) ` set ?ws"
      by (force simp: segments_globs image_iff)
    from fold_write_other [OF this] show ?thesis by (simp add: fs)
  qed
  have c: "list_ex (\<lambda>g. glob_match g r) copy_globs =
       (\<exists>ds f. r = ''source'' # ''fonts'' # ds @ [f] \<and> list_all (\<lambda>y. \<not> hidden y) (ds @ [f]) \<and>
          (ends_with ''.woff'' f \<or> ends_with ''.woff2'' f \<or> ends_with ''.eot'' f \<or>
           ends_with ''.ttf'' f))"
    by (simp add: copy_globs_def fonts_glob)
  have ok: "fst (copy e s) = Ok" by (simp add: copy_eq)
  from ok a b c show ?thesis by (simp add: case_prod_beta)
qed

theorem copy_mirrors_fonts_witness:
  "distinct (map fst example_files)
   \<and> map_of (files (snd (copy example_env \<lparr>files = example_files, log = []\<rparr>)))
        [''build'', ''fonts'', ''roboto'', ''regular.woff2''] = Some ''wOF2''"
proof -
  have d: "distinct (map fst (files \<lparr>files = example_files, log = []\<rparr>))"
    by (simp add: example_files_def)
  have m: "([''source'', ''fonts'', ''roboto'', ''regular.woff2''], ''wOF2'')
             \<in> set (files \<lparr>files = example_files, log = []\<rparr>)"
    by (simp add: example_files_def)
  have g: "glob_match ''source/fonts/**/*.{woff,woff2,eot,ttf}''
             [''source'', ''fonts'', ''roboto'', ''regular.woff2'']"
    by (simp add: glob_match_def segments_globs seg_match_def expand_braces_def hidden_def)
  from copy_mirrors_fonts [OF d, of example_env] m g d show ?thesis by fastforce
qed

text \<open>
  Claim C6 as stated fails: a \<open>.woff\<close> file below the source tree but outside
  \<open>source/fonts\<close> is not selected, and nothing is written for it.
\<close>

theorem copy_skips_fonts_outside_fonts_directory:
  "ends_with ''.woff'' ''logo.woff''
   \<and> copy example_env \<lparr>files = [([''source'', ''img'', ''logo.woff''], ''wOFF'')], log = []\<rparr>
       = (Ok, \<lparr>files = [([''source'', ''img'', ''logo.woff''], ''wOFF'')], log = []\<rparr>)
   \<and> map_of (files (snd (copy example_env
         \<lparr>files = [([''source'', ''img'', ''logo.woff''], ''wOFF'')], log = []\<rparr>)))
        [''build'', ''img'', ''logo.woff''] = None"
  by (simp add: copy_eq ends_with_def glob_match_def segments_globs)

section \<open>images\<close>

lemma images_feed:
  "feed e False images_stages v s =
     (case transform e (Imagemin 3 True False False) (files s) (vpath v) (vcontents v) of
        None \<Rightarrow> (Fatal, None, s)
      | Some c \<Rightarrow> (Ok, Some (v\<lparr>vbase := [''build'', ''img''], vcontents := c\<rparr>),
                   write_file ''build/img'' (v\<lparr>vcontents := c\<rparr>) s))"
  by (simp add: images_stages_def through_def tool_ext_def segments_globs split: option.splits)

lemma images_run:
  "images e s =
     (case feed_all e False images_stages
        (map (\<lambda>(p, c). \<lparr>vbase = [''source'', ''img''], vrel = drop 2 p, vcontents = c\<rparr>)
          (filter (\<lambda>(p, c). glob_match ''source/img/**/*.{png,jpg,svg}'' p) (files s))) s
      of (r, ws, s') \<Rightarrow> (r, s'))"
proof -
  have "\<And>cfg. WebpackStream cfg \<notin> set images_stages" by (simp add: images_stages_def)
  from run_stages_plain [OF this, of e False "[]"] show ?thesis
    by (simp add: images_def stream_task_def images_globs_def src_glob is_globs glob_parents
          numeral_2_eq_2)
qed

lemma images_vpath:
  "glob_match ''source/img/**/*.{png,jpg,svg}'' p \<Longrightarrow>
   vpath \<lparr>vbase = [''source'', ''img''], vrel = drop 2 p, vcontents = c\<rparr> = p"
  by (auto simp: images_glob vpath_def numeral_2_eq_2)

lemma images_fatal:
  assumes "(p, c) \<in> set (files s)" "glob_match ''source/img/**/*.{png,jpg,svg}'' p"
    and "\<And>fs. transform e (Imagemin 3 True False False) fs p c = None"
  shows "fst (images e s) = Fatal"
proof -
  let ?mk = "\<lambda>(p, c). \<lparr>vbase = [''source'', ''img''], vrel = drop 2 p, vcontents = c\<rparr>"
  let ?vs = "map ?mk (filter (\<lambda>(p, c). glob_match ''source/img/**/*.{png,jpg,svg}'' p) (files s))"
  have bad: "fst (feed e False images_stages (?mk (p, c)) t) = Fatal" for t
    using assms(3) [of "files t"] images_vpath [OF assms(2), of c] by (simp add: images_feed)
  from assms(1,2) have "?mk (p, c) \<in> set ?vs" by force
  from feed_all_fatal [of e False images_stages "?mk (p, c)" ?vs s, OF bad this]
  show ?thesis by (simp add: images_run split_beta)
qed

lemma build_fails_with_images:
  assumes "(p, c) \<in> set (files s)" "glob_match ''source/img/**/*.{png,jpg,svg}'' p"
    and "\<And>fs. transform e (Imagemin 3 True False False) fs p c = None"
  shows "fst (run e exports_build s) = Fatal"
proof (cases "list_ex (\<lambda>(p, c). under ''build'' p \<and> locked e p) (files s)")
  case True
  then show ?thesis by (simp add: exports_build_def clean_def del_def)
next
  case False
  define s0 where "s0 = snd (clean e s)"
  from False have c: "clean e s = (Ok, s0)"
    by (simp add: s0_def clean_def del_def)
  from assms(2) have sp: "take 1 p = [''source'']" by (auto simp: images_glob)
  from False have "files s0 = filter (\<lambda>(p, c). take 1 p \<noteq> [''build'']) (files s)"
    by (simp add: s0_def clean_def del_def under_build)
  with assms(1) sp have m0: "(p, c) \<in> set (files s0)" by auto
  define s1 where "s1 = snd (copy e s0)"
  have cp: "copy e s0 = (Ok, s1)" by (simp add: s1_def copy_eq)
  from sp have "take (length (segments ''build'')) p \<noteq> segments ''build''"
    by (simp add: segments_globs)
  from fold_write_keeps [OF m0 this] have m1: "(p, c) \<in> set (files s1)"
    by (simp add: s1_def copy_eq)
  obtain s2 where im: "images e s1 = (Fatal, s2)"
    using images_fatal [OF m1 assms(2) assms(3)] by (cases "images e s1") simp
  from c cp im show ?thesis by (simp add: exports_build_def)
qed

text \<open>
  Claim C2, amended.  \<open>images\<close> pipes no \<open>plumber\<close>.  When the optimizer returns a
  result for every image matched by the glob, whatever else is on disk (the optimized
  bytes, or the bytes unchanged), \<open>images\<close> completes, and the output holds at
  \<open>build/img\<close> followed by the path relative to \<open>source/img\<close> what the optimizer
  returns for the image with the source tree as it is.  When the optimizer emits an error
  on a matched image, whatever else is on disk, \<open>images\<close> fails and so does
  \<open>exports.build\<close>; which other images were written before the error is left open.
\<close>

theorem images_fail_on_optimizer_error:
  assumes "distinct (map fst (files s))"
  shows "(if list_all (\<lambda>(p, c). \<forall>fs. transform e (Imagemin 3 True False False) fs p c \<noteq> None)
           (filter (\<lambda>(p, c). list_ex (\<lambda>g. glob_match g p) images_globs) (files s))
       then fst (images e s) = Ok
          \<and> (\<forall>(p, c) \<in> set (files s).
               if list_ex (\<lambda>g. glob_match g p) images_globs
               then \<exists>fs'. filter (\<lambda>(p, c). take 1 p \<noteq> [''build'']) fs' =
                          filter (\<lambda>(p, c). take 1 p \<noteq> [''build'']) (files s) \<and>
                      map_of (files (snd (images e s))) (''build'' # ''img'' # drop 2 p) =
                        transform e (Imagemin 3 True False False) fs' p c
               else True)
       else True)
   \<and> (if list_ex (\<lambda>(p, c). list_ex (\<lambda>g. glob_match g p) images_globs \<and>
              (\<forall>fs. transform e (Imagemin 3 True False False) fs p c = None)) (files s)
       then fst (images e s) = Fatal \<and> fst (run e exports_build s) = Fatal else True)
   \<and> Plumber \<notin> set images_stages"
proof -
  let ?T = "Imagemin 3 True False False"
  let ?G = "''source/img/**/*.{png,jpg,svg}''"
  let ?ms = "filter (\<lambda>(p, c). glob_match ?G p) (files s)"
  let ?mk = "\<lambda>(p, c). \<lparr>vbase = [''source'', ''img''], vrel = drop 2 p, vcontents = c\<rparr>"
  let ?vs = "map ?mk ?ms"
  let ?key = "\<lambda>v. [''build'', ''img''] @ vrel v"
  have gl: "list_ex (\<lambda>g. glob_match g p) images_globs = glob_match ?G p" for p
    by (simp add: images_globs_def)
  have fin: "fst (images e s) = fst (feed_all e False images_stages ?vs s)"
    "snd (images e s) = snd (snd (feed_all e False images_stages ?vs s))"
    by (simp_all add: images_run split_beta)
  have step: "files (snd (snd (feed e False images_stages v t))) = files t \<or>
      (\<exists>c. files (snd (snd (feed e False images_stages v t))) = AList.update (?key v) c (files t))"
    for v t
    by (auto simp: images_feed write_file_def segments_globs split: option.splits)
  have nb: "filter (\<lambda>(p, c). take 1 p \<noteq> [''build'']) (files (snd (snd (feed e False images_stages v t)))) =
            filter (\<lambda>(p, c). take 1 p \<noteq> [''build'']) (files t)" for v t
    by (rule feed_in_build) (auto simp: images_stages_def segments_globs)
  have pre: "take 2 p = [''source'', ''img'']" if "glob_match ?G p" for p
    using that by (auto simp: images_glob)
  have "map ?key ?vs = map ((@) [''build'', ''img'']) (map (\<lambda>(p, c). drop 2 p) ?ms)"
    by (simp add: comp_def case_prod_beta)
  moreover have "distinct (map (\<lambda>(p, c). drop 2 p) ?ms)"
    by (rule distinct_rel [of "files s" "glob_match ?G" 2 "[''source'', ''img'']", OF assms pre])
  ultimately have dist: "distinct (map ?key ?vs)"
    by (simp only: distinct_map) (auto intro: inj_onI)
  have good: "fst (images e s) = Ok
     \<and> (\<forall>(p, c) \<in> set (files s).
               if glob_match ?G p
               then \<exists>fs'. filter (\<lambda>(p, c). take 1 p \<noteq> [''build'']) fs' =
                          filter (\<lambda>(p, c). take 1 p \<noteq> [''build'']) (files s) \<and>
                      map_of (files (snd (images e s))) (''build'' # ''img'' # drop 2 p) =
                        transform e ?T fs' p c
               else True)"
    if all: "list_all (\<lambda>(p, c). \<forall>fs. transform e ?T fs p c \<noteq> None) ?ms"
  proof -
    have ok: "fst (feed e False images_stages v t) = Ok" if "v \<in> set ?vs" for v t
    proof -
      from that obtain p c where pc: "(p, c) \<in> set (files s)" "glob_match ?G p" "v = ?mk (p, c)"
        by auto
      with all have "transform e ?T (files t) p c \<noteq> None" by (auto simp: list_all_iff)
      with pc images_vpath [OF pc(2), of c] show ?thesis
        by (auto simp: images_feed)
    qed
    have a: "fst (images e s) = Ok"
      unfolding fin by (rule feed_all_ok) (rule ok)
    have b: "\<exists>fs'. filter (\<lambda>(p, c). take 1 p \<noteq> [''build'']) fs' =
                          filter (\<lambda>(p, c). take 1 p \<noteq> [''build'']) (files s) \<and>
                 map_of (files (snd (images e s))) (''build'' # ''img'' # drop 2 p) =
                        transform e ?T fs' p c"
      if m: "(p, c) \<in> set (files s)" "glob_match ?G p" for p c
    proof -
      from m have mem: "?mk (p, c) \<in> set ?vs" by force
      have post: "map_of (files (snd (snd (feed e False images_stages (?mk (p, c)) t))))
                    (?key (?mk (p, c))) = transform e ?T (files t) p c" for t
      proof -
        from m all have "transform e ?T (files t) p c \<noteq> None" by (auto simp: list_all_iff)
        then obtain c' where "transform e ?T (files t) p c = Some c'" by blast
        with images_vpath [OF m(2), of c] show ?thesis
          by (simp add: images_feed write_file_def segments_globs update_conv')
      qed
      from feed_all_each [of ?vs e False images_stages ?key "?mk (p, c)"
          "\<lambda>fs. transform e ?T fs p c" s, OF ok step nb post mem dist]
      show ?thesis by (simp add: fin)
    qed
    from a b show ?thesis by auto
  qed
  have bad: "fst (images e s) = Fatal \<and> fst (run e exports_build s) = Fatal"
    if "list_ex (\<lambda>(p, c). glob_match ?G p \<and> (\<forall>fs. transform e ?T fs p c = None)) (files s)"
  proof -
    from that obtain p c where "(p, c) \<in> set (files s)" "glob_match ?G p"
      "\<And>fs. transform e ?T fs p c = None"
      by (auto simp: list_ex_iff)
    then show ?thesis using images_fatal build_fails_with_images by blast
  qed
  have np: "Plumber \<notin> set images_stages" by (simp add: images_stages_def)
  from good bad np show ?thesis unfolding gl by simp
qed

lemmas glob_eval = glob_match_def segments_globs seg_match_def expand_braces_def hidden_def

theorem images_fail_on_optimizer_error_witness:
  "distinct (map fst example_files)
   \<and> fst (images example_env \<lparr>files = example_files, log = []\<rparr>) = Ok
   \<and> map_of (files (snd (images example_env \<lparr>files = example_files, log = []\<rparr>)))
        [''build'', ''img'', ''icons'', ''logo.png''] = Some ''PNG''
   \<and> fst (images failing_imagemin_env \<lparr>files = example_files, log = []\<rparr>) = Fatal"
proof -
  let ?s = "\<lparr>files = example_files, log = []\<rparr>"
  have d: "distinct (map fst (files ?s))"
    by (simp add: example_files_def)
  have m: "([''source'', ''img'', ''icons'', ''logo.png''], ''PNG'') \<in> set (files ?s)"
    by (simp add: example_files_def)
  have g: "list_ex (\<lambda>g. glob_match g [''source'', ''img'', ''icons'', ''logo.png'']) images_globs"
    by (simp add: images_globs_def glob_eval)
  have all: "list_all (\<lambda>(p, c). \<forall>fs. transform example_env (Imagemin 3 True False False) fs p c \<noteq> None)
           (filter (\<lambda>(p, c). list_ex (\<lambda>g. glob_match g p) images_globs) (files ?s))"
    by (simp add: list_all_iff example_env_def)
  have t: "transform example_env (Imagemin 3 True False False) fs p c = Some c" for fs p c
    by (simp add: example_env_def)
  have bad: "list_ex (\<lambda>(p, c). list_ex (\<lambda>g. glob_match g p) images_globs \<and>
              (\<forall>fs. transform failing_imagemin_env (Imagemin 3 True False False) fs p c = None))
            (files ?s)"
    using m g by (auto simp: list_ex_iff failing_imagemin_env_def)
  from images_fail_on_optimizer_error [OF d, of example_env] all
  have ok: "fst (images example_env ?s) = Ok"
    and each: "\<forall>(p, c) \<in> set (files ?s).
               if list_ex (\<lambda>g. glob_match g p) images_globs
               then \<exists>fs'. filter (\<lambda>(p, c). take 1 p \<noteq> [''build'']) fs' =
                          filter (\<lambda>(p, c). take 1 p \<noteq> [''build'']) (files ?s) \<and>
                      map_of (files (snd (images example_env ?s))) (''build'' # ''img'' # drop 2 p) =
                        transform example_env (Imagemin 3 True False False) fs' p c
               else True"
    by simp_all
  from each m g have w: "map_of (files (snd (images example_env ?s)))
        [''build'', ''img'', ''icons'', ''logo.png''] = Some ''PNG''"
    by (auto simp: t)
  from images_fail_on_optimizer_error [OF d, of failing_imagemin_env] bad
  have f: "fst (images failing_imagemin_env ?s) = Fatal" by simp
  from d ok w f show ?thesis by simp
qed

text \<open>
  Claim C2 as stated fails: with an optimizer that emits an error on the one matched
  image, \<open>images\<close> fails, \<open>exports.build\<close> fails, and no file is at the mirrored path
  in the output.
\<close>

theorem images_optimizer_error_is_fatal:
  "list_ex (\<lambda>g. glob_match g [''source'', ''img'', ''icons'', ''logo.png'']) images_globs
   \<and> transform failing_imagemin_env (Imagemin 3 True False False) example_files
        [''source'', ''img'', ''icons'', ''logo.png''] ''PNG'' = None
   \<and> fst (images failing_imagemin_env \<lparr>files = example_files, log = []\<rparr>) = Fatal
   \<and> fst (run failing_imagemin_env exports_build \<lparr>files = example_files, log = []\<rparr>) = Fatal
   \<and> map_of (files (snd (run failing_imagemin_env exports_build
          \<lparr>files = example_files, log = []\<rparr>))) [''build'', ''img'', ''icons'', ''logo.png''] = None"
  by code_simp

section \<open>html and the template watch rule\<close>











section \<open>style and buildJs\<close>

text \<open>
  Claim C4.  For a stylesheet entry that the compiler, the prefixer and the minifier
  accept, \<open>style\<close> completes; it first writes the compiled and prefixed, unminified
  result as \<open>build/css/style.css\<close>, then the minified result as
  \<open>build/css/style.min.css\<close> (the suffix \<open>.min\<close> before the extension, the same
  directory), and then notifies the server.  With a minifier that keeps its contract the
  minified file has at most as many bytes as the unminified one.
\<close>

theorem style_writes_both:
  assumes "distinct (map fst (files s))"
    and "([''source'', ''less'', ''style.less''], c) \<in> set (files s)"
    and "transform e Less (files s) [''source'', ''less'', ''style.less''] c = Some c1"
    and "transform e (PostcssAutoprefixer [''last 3 versions'']) (files s)
           [''source'', ''less'', ''style.css''] c1 = Some c2"
    and "transform e Csso (AList.update [''build'', ''css'', ''style.css''] c2 (files s))
           [''build'', ''css'', ''style.css''] c2 = Some c3"
    and "minifier_contract e"
  shows "fst (style e s) = Ok
   \<and> log (snd (style e s)) =
       log s @ [Wrote [''build'', ''css'', ''style.css''],
                Wrote [''build'', ''css'', ''style.min.css''],
                Notified [''build'', ''css'', ''style.min.css'']]
   \<and> map_of (files (snd (style e s))) [''build'', ''css'', ''style.css''] = Some c2
   \<and> map_of (files (snd (style e s))) [''build'', ''css'', ''style.min.css''] = Some c3
   \<and> length c3 \<le> length c2"
proof -
  have src: "src style_globs None (files s) =
     Some [\<lparr>vbase = [''source'', ''less''], vrel = [''style.less''], vcontents = c\<rparr>]"
    using entry_src [OF assms(1,2) is_globs(4) glob_style]
    by (simp add: style_globs_def glob_parents)
  have st: "style e s =
     (Ok, say [Notified [''build'', ''css'', ''style.min.css'']]
       (write_file ''build/css'' \<lparr>vbase = [''build'', ''css''], vrel = [''style.min.css''], vcontents = c3\<rparr>
         (write_file ''build/css'' \<lparr>vbase = [''source'', ''less''], vrel = [''style.css''], vcontents = c2\<rparr> s)))"
    using assms(3,4,5)
    by (simp add: style_def stream_task_def src style_stages_def through_def vpath_def tool_ext_def
          names write_file_def say_def segments_globs)
  from assms(5,6) have sz: "length c3 \<le> length c2"
    unfolding minifier_contract_def by blast
  from st sz show ?thesis
    by (simp add: say_def write_file_def segments_globs update_conv')
qed

theorem style_writes_both_witness:
  "distinct (map fst example_files)
   \<and> minifier_contract example_env
   \<and> map_of (files (snd (style example_env \<lparr>files = example_files, log = []\<rparr>)))
        [''build'', ''css'', ''style.css''] = Some ''a { color: red }''
   \<and> map_of (files (snd (style example_env \<lparr>files = example_files, log = []\<rparr>)))
        [''build'', ''css'', ''style.min.css''] = Some ''a{color:red}''"
proof -
  let ?s = "\<lparr>files = example_files, log = []\<rparr>"
  have d: "distinct (map fst (files ?s))" by (simp add: example_files_def)
  have m: "([''source'', ''less'', ''style.less''], ''a { color: red }'') \<in> set (files ?s)"
    by (simp add: example_files_def)
  have h1: "transform example_env Less (files ?s) [''source'', ''less'', ''style.less'']
              ''a { color: red }'' = Some ''a { color: red }''"
    by (simp add: example_env_def)
  have h2: "transform example_env (PostcssAutoprefixer [''last 3 versions'']) (files ?s)
           [''source'', ''less'', ''style.css''] ''a { color: red }'' = Some ''a { color: red }''"
    by (simp add: example_env_def)
  have h3: "transform example_env Csso
           (AList.update [''build'', ''css'', ''style.css''] ''a { color: red }'' (files ?s))
           [''build'', ''css'', ''style.css''] ''a { color: red }'' = Some ''a{color:red}''"
    by (simp add: example_env_def)
  have mc: "minifier_contract example_env"
    by (auto simp: minifier_contract_def example_env_def)
  from style_writes_both [OF d m h1 h2 h3 mc] d mc show ?thesis by simp
qed

lemma buildJs_silent:
  "filter is_notification (log (snd (buildJs e s))) = filter is_notification (log s)"
proof (cases "src buildJs_globs None (files s)")
  case None
  then show ?thesis by (simp add: buildJs_def stream_task_def)
next
  case (Some vs)
  have "ServerStream \<notin> set [] \<union> set buildJs_stages" by (simp add: buildJs_stages_def)
  from run_stages_silent [OF this] Some show ?thesis by (simp add: buildJs_def stream_task_def)
qed

text \<open>
  Claim C5.  For a script entry that the bundler and the minifier accept, \<open>buildJs\<close>
  completes; it first writes the bundle, unminified, as \<open>build/js/script.js\<close> (the
  fixed file name of the bundler's configuration) and then the minified copy as
  \<open>build/js/script.min.js\<close>.  Whatever its input, \<open>buildJs\<close> adds no live-reload
  notification: its pipeline has no \<open>server.stream()\<close> stage, while those of \<open>html\<close>
  and \<open>style\<close> have one.
\<close>

theorem buildJs_writes_both_without_notification:
  assumes "distinct (map fst (files s))"
    and "([''source'', ''js'', ''script.js''], c) \<in> set (files s)"
    and "webpack e buildJs_cfg (files s)
           [\<lparr>vbase = [''source'', ''js''], vrel = [''script.js''], vcontents = c\<rparr>] = Some b"
    and "transform e Uglify (AList.update [''build'', ''js'', ''script.js''] b (files s))
           [''build'', ''js'', ''script.js''] b = Some m"
  shows "fst (buildJs e s) = Ok
   \<and> log (snd (buildJs e s)) =
       log s @ [Wrote [''build'', ''js'', ''script.js''], Wrote [''build'', ''js'', ''script.min.js'']]
   \<and> map_of (files (snd (buildJs e s))) [''build'', ''js'', ''script.js''] = Some b
   \<and> map_of (files (snd (buildJs e s))) [''build'', ''js'', ''script.min.js''] = Some m
   \<and> filename buildJs_cfg = ''script.js'' \<and> \<not> minimize buildJs_cfg
   \<and> filter is_notification (log (snd (buildJs e' s'))) = filter is_notification (log s')
   \<and> ServerStream \<notin> set buildJs_stages
   \<and> ServerStream \<in> set html_stages \<and> ServerStream \<in> set style_stages"
proof -
  have src: "src buildJs_globs None (files s) =
     Some [\<lparr>vbase = [''source'', ''js''], vrel = [''script.js''], vcontents = c\<rparr>]"
    using entry_src [OF assms(1,2) is_globs(5) glob_script]
    by (simp add: buildJs_globs_def glob_parents)
  have fn: "filename buildJs_cfg = ''script.js''" "\<not> minimize buildJs_cfg"
    by (simp_all add: buildJs_cfg_def)
  have st: "buildJs e s =
     (Ok, write_file ''build/js'' \<lparr>vbase = [''build'', ''js''], vrel = [''script.min.js''], vcontents = m\<rparr>
           (write_file ''build/js'' \<lparr>vbase = [], vrel = [''script.js''], vcontents = b\<rparr> s))"
    using assms(3,4)
    by (simp add: buildJs_def stream_task_def src buildJs_stages_def through_def vpath_def
          tool_ext_def names write_file_def segments_globs Let_def fn)
  have sg: "ServerStream \<notin> set buildJs_stages" "ServerStream \<in> set html_stages"
    "ServerStream \<in> set style_stages"
    by (simp_all add: buildJs_stages_def html_stages_def style_stages_def)
  from st fn sg buildJs_silent [of e' s'] show ?thesis
    by (simp add: write_file_def segments_globs update_conv')
qed

theorem buildJs_writes_both_without_notification_witness:
  "distinct (map fst example_files)
   \<and> map_of (files (snd (buildJs example_env \<lparr>files = example_files, log = []\<rparr>)))
        [''build'', ''js'', ''script.js''] = Some ''let x = 1''
   \<and> map_of (files (snd (buildJs example_env \<lparr>files = example_files, log = []\<rparr>)))
        [''build'', ''js'', ''script.min.js''] = Some ''let x = 1''
   \<and> log (snd (buildJs example_env \<lparr>files = example_files, log = []\<rparr>)) =
        [Wrote [''build'', ''js'', ''script.js''], Wrote [''build'', ''js'', ''script.min.js'']]"
proof -
  let ?s = "\<lparr>files = example_files, log = []\<rparr>"
  have d: "distinct (map fst (files ?s))" by (simp add: example_files_def)
  have m: "([''source'', ''js'', ''script.js''], ''let x = 1'') \<in> set (files ?s)"
    by (simp add: example_files_def)
  have h1: "webpack example_env buildJs_cfg (files ?s)
           [\<lparr>vbase = [''source'', ''js''], vrel = [''script.js''], vcontents = ''let x = 1''\<rparr>]
             = Some ''let x = 1''"
    by (simp add: example_env_def)
  have h2: "transform example_env Uglify
           (AList.update [''build'', ''js'', ''script.js''] ''let x = 1'' (files ?s))
           [''build'', ''js'', ''script.js''] ''let x = 1'' = Some ''let x = 1''"
    by (simp add: example_env_def)
  from buildJs_writes_both_without_notification [OF d m h1 h2] d show ?thesis by simp
qed

section \<open>Building twice\<close>

lemma stream_task_cong:
  assumes "files s = files t"
  shows "fst (stream_task e gs b sts s) = fst (stream_task e gs b sts t) \<and>
   files (snd (stream_task e gs b sts s)) = files (snd (stream_task e gs b sts t))"
proof (cases "src gs b (files t)")
  case None
  with assms show ?thesis by (simp add: stream_task_def)
next
  case (Some vs)
  with assms run_stages_cong [OF assms, of e False "[]" sts vs] show ?thesis
    by (simp add: stream_task_def)
qed

lemma task_fn_cong:
  assumes "files s = files t"
  shows "fst (task_fn k e s) = fst (task_fn k e t) \<and>
         files (snd (task_fn k e s)) = files (snd (task_fn k e t))"
proof (cases k)
  case Clean
  with assms show ?thesis by (simp add: clean_def del_def)
next
  case Copy
  with stream_task_cong [OF assms] show ?thesis by (simp add: copy_def)
next
  case Html
  with stream_task_cong [OF assms] show ?thesis by (simp add: html_def)
next
  case Style
  with stream_task_cong [OF assms] show ?thesis by (simp add: style_def)
next
  case Images
  with stream_task_cong [OF assms] show ?thesis by (simp add: images_def)
next
  case BuildJs
  with stream_task_cong [OF assms] show ?thesis by (simp add: buildJs_def)
next
  case Reload
  with assms show ?thesis by (simp add: reload_def say_def)
next
  case Deploy
  with assms show ?thesis by (simp add: deploy_def say_def)
next
  case Serve
  with assms show ?thesis by (simp add: serve_def Let_def watch_def server_init_def say_def)
qed

lemma run_cong:
  "files s = files t \<Longrightarrow>
   fst (run e p s) = fst (run e p t) \<and> files (snd (run e p s)) = files (snd (run e p t))"
proof (induction e p s arbitrary: t rule: run.induct)
  case (1 e k s)
  from task_fn_cong [OF "1.prems"] show ?case by simp
next
  case (2 e s)
  then show ?case by simp
next
  case (3 e p ps s)
  obtain r s' where a: "run e p s = (r, s')" by (cases "run e p s")
  obtain r2 t' where b: "run e p t = (r2, t')" by (cases "run e p t")
  from "3.IH"(1) [OF "3.prems"] a b have eq: "r2 = r" "files s' = files t'" by simp_all
  show ?case
  proof (cases "r = Ok")
    case True
    from "3.IH"(2) [OF a [symmetric] True eq(2)] a b eq True show ?thesis by simp
  next
    case False
    with a b eq show ?thesis by (cases r) simp_all
  qed
next
  case (4 e s)
  then show ?case by simp
next
  case (5 e p ps s)
  obtain r s' where a: "run e p s = (r, s')" by (cases "run e p s")
  obtain r2 t' where b: "run e p t = (r2, t')" by (cases "run e p t")
  from "5.IH"(1) [OF "5.prems"] a b have eq: "r2 = r" "files s' = files t'" by simp_all
  from "5.IH"(2) [OF a [symmetric] eq(2)] a b eq show ?case
    by (simp add: split_beta)
qed

lemma stream_task_in_build:
  assumes "\<And>d. Dest d \<in> set sts \<Longrightarrow> take 1 (segments d) = [''build'']"
  shows "filter (\<lambda>(p, c). take 1 p \<noteq> [''build'']) (files (snd (stream_task e gs b sts s))) =
         filter (\<lambda>(p, c). take 1 p \<noteq> [''build'']) (files s)"
proof (cases "src gs b (files s)")
  case None
  then show ?thesis by (simp add: stream_task_def)
next
  case (Some vs)
  have "filter (\<lambda>(p, c). take 1 p \<noteq> [''build''])
          (files (snd (run_stages e False [] sts vs s))) =
        filter (\<lambda>(p, c). take 1 p \<noteq> [''build'']) (files s)"
    using assms by (intro run_stages_in_build) auto
  with Some show ?thesis
    by (simp add: stream_task_def)
qed

lemma task_in_build:
  assumes "k \<in> {Clean, Copy, Images, Html, Style, BuildJs}"
  shows "filter (\<lambda>(p, c). take 1 p \<noteq> [''build'']) (files (snd (task_fn k e s))) =
         filter (\<lambda>(p, c). take 1 p \<noteq> [''build'']) (files s)"
proof -
  have c: "?thesis" if "k = Clean"
    using that by (simp add: clean_def del_def under_build)
  have st: "filter (\<lambda>(p, c). take 1 p \<noteq> [''build'']) (files (snd (stream_task e gs b sts s))) =
         filter (\<lambda>(p, c). take 1 p \<noteq> [''build'']) (files s)"
    if "sts \<in> {copy_stages, images_stages, html_stages, style_stages, buildJs_stages}" for gs b sts
  proof (rule stream_task_in_build)
    fix d assume "Dest d \<in> set sts"
    with that have "d \<in> {''build'', ''build/img'', ''build/css'', ''build/js''}"
      by (auto simp: copy_stages_def images_stages_def html_stages_def style_stages_def
            buildJs_stages_def)
    then show "take 1 (segments d) = [''build'']" by (auto simp: segments_globs)
  qed
  from assms c st show ?thesis
    by (auto simp: copy_def images_def html_def style_def buildJs_def)
qed

lemma run_in_build:
  "set (tasks_of p) \<subseteq> {Clean, Copy, Images, Html, Style, BuildJs} \<Longrightarrow>
   filter (\<lambda>(p, c). take 1 p \<noteq> [''build'']) (files (snd (run e p s))) =
   filter (\<lambda>(p, c). take 1 p \<noteq> [''build'']) (files s)"
proof (induction e p s rule: run.induct)
  case (1 e k s)
  then show ?case using task_in_build [of k e s] by simp
next
  case (2 e s)
  show ?case by simp
next
  case (3 e p ps s)
  obtain r s' where a: "run e p s = (r, s')" by (cases "run e p s")
  from "3.prems" have sub: "set (tasks_of p) \<subseteq> {Clean, Copy, Images, Html, Style, BuildJs}"
    "set (tasks_of (Series ps)) \<subseteq> {Clean, Copy, Images, Html, Style, BuildJs}" by auto
  from "3.IH"(1) [OF sub(1)] a have b: "filter (\<lambda>(p, c). take 1 p \<noteq> [''build'']) (files s') =
         filter (\<lambda>(p, c). take 1 p \<noteq> [''build'']) (files s)" by simp
  show ?case
  proof (cases "r = Ok")
    case True
    from "3.IH"(2) [OF a [symmetric] True sub(2)] a b True show ?thesis by simp
  next
    case False
    with a b show ?thesis by (cases r) simp_all
  qed
next
  case (4 e s)
  show ?case by simp
next
  case (5 e p ps s)
  obtain r s' where a: "run e p s = (r, s')" by (cases "run e p s")
  from "5.prems" have sub: "set (tasks_of p) \<subseteq> {Clean, Copy, Images, Html, Style, BuildJs}"
    "set (tasks_of (Parallel ps)) \<subseteq> {Clean, Copy, Images, Html, Style, BuildJs}" by auto
  from "5.IH"(1) [OF sub(1)] a have b: "filter (\<lambda>(p, c). take 1 p \<noteq> [''build'']) (files s') =
         filter (\<lambda>(p, c). take 1 p \<noteq> [''build'']) (files s)" by simp
  obtain r' s'' where c: "run e (Parallel ps) s' = (r', s'')" by (cases "run e (Parallel ps) s'")
  from "5.IH"(2) [OF a [symmetric] sub(2)] a b c show ?case by simp
qed

text \<open>
  Claim C8.  When \<open>exports.build\<close> is run twice in succession and both runs complete,
  the files after the second run are, path by path and byte by byte, the files after the
  first; and a run leaves every file outside \<open>build\<close>, so the source tree, as it was.
  The delegated tools are functions of what they read; metadata they might embed from
  elsewhere (timestamps) is outside the model.
\<close>

theorem build_twice_same_output:
  assumes "fst (run e exports_build s) = Ok"
    and "fst (run e exports_build (snd (run e exports_build s))) = Ok"
  shows "files (snd (run e exports_build (snd (run e exports_build s)))) =
           files (snd (run e exports_build s))
   \<and> filter (\<lambda>(p, c). take 1 p \<noteq> [''build'']) (files (snd (run e exports_build s))) =
       filter (\<lambda>(p, c). take 1 p \<noteq> [''build'']) (files s)"
proof -
  let ?rest = "Series [Parallel [Task Copy, Task Images], Parallel [Task Html, Task Style, Task BuildJs]]"
  let ?nb = "filter (\<lambda>(p, c). take 1 p \<noteq> [''build''])"
  have split: "run e exports_build t =
      (case clean e t of (Ok, t') \<Rightarrow> run e ?rest t' | (r, t') \<Rightarrow> (r, t'))" for t
    by (simp add: exports_build_def)
  have sub: "set (tasks_of ?rest) \<subseteq> {Clean, Copy, Images, Html, Style, BuildJs}" by simp
  have cl: "clean e t = (Ok, snd (clean e t)) \<and> files (snd (clean e t)) = ?nb (files t)"
    if "fst (run e exports_build t) = Ok" for t
  proof -
    have "fst (clean e t) = Ok"
    proof (rule ccontr)
      assume "fst (clean e t) \<noteq> Ok"
      then have "run e exports_build t = clean e t"
        unfolding split by (cases "clean e t"; cases "fst (clean e t)") auto
      with that \<open>fst (clean e t) \<noteq> Ok\<close> show False by simp
    qed
    then show ?thesis
      by (auto simp: clean_def del_def under_build split: if_splits)
  qed
  define s0 where "s0 = snd (clean e s)"
  define s1 where "s1 = snd (run e exports_build s)"
  define t0 where "t0 = snd (clean e s1)"
  from cl [OF assms(1)] have c0: "clean e s = (Ok, s0)" "files s0 = ?nb (files s)"
    by (simp_all add: s0_def)
  from cl [of s1] assms(2) have c1: "clean e s1 = (Ok, t0)" "files t0 = ?nb (files s1)"
    by (simp_all add: s1_def t0_def)
  have r1: "run e exports_build s = run e ?rest s0" unfolding split c0 by simp
  have r2: "run e exports_build s1 = run e ?rest t0" unfolding split c1 by simp
  have "?nb (files s1) = ?nb (files s0)"
    unfolding s1_def r1 by (rule run_in_build [OF sub])
  also have "\<dots> = files s0" unfolding c0(2) by simp
  finally have eq: "files t0 = files s0" using c1(2) by simp
  from run_cong [OF eq, of e ?rest] have "files (snd (run e ?rest t0)) = files (snd (run e ?rest s0))"
    by simp
  then have same: "files (snd (run e exports_build s1)) = files s1"
    unfolding r2 unfolding s1_def r1 .
  have "?nb (files s1) = ?nb (files s)"
    using \<open>?nb (files s1) = ?nb (files s0)\<close> c0(2) by simp
  with same show ?thesis unfolding s1_def by simp
qed

theorem build_twice_same_output_witness:
  "fst (run example_env exports_build \<lparr>files = example_files, log = []\<rparr>) = Ok
   \<and> fst (run example_env exports_build
        (snd (run example_env exports_build \<lparr>files = example_files, log = []\<rparr>))) = Ok
   \<and> files (snd (run example_env exports_build
        (snd (run example_env exports_build \<lparr>files = example_files, log = []\<rparr>)))) =
       files (snd (run example_env exports_build \<lparr>files = example_files, log = []\<rparr>))
   \<and> map_of (files (snd (run example_env exports_build \<lparr>files = example_files, log = []\<rparr>)))
        [''build'', ''index.html''] = Some ''h1 Hello''
   \<and> map_of (files (snd (run example_env exports_build \<lparr>files = example_files, log = []\<rparr>)))
        [''build'', ''stale.txt''] = None"
proof -
  have a: "fst (run example_env exports_build \<lparr>files = example_files, log = []\<rparr>) = Ok"
    by code_simp
  have b: "fst (run example_env exports_build
        (snd (run example_env exports_build \<lparr>files = example_files, log = []\<rparr>))) = Ok"
    by code_simp
  have c: "map_of (files (snd (run example_env exports_build \<lparr>files = example_files, log = []\<rparr>)))
        [''build'', ''index.html''] = Some ''h1 Hello''"
    by code_simp
  have d: "map_of (files (snd (run example_env exports_build \<lparr>files = example_files, log = []\<rparr>)))
        [''build'', ''stale.txt''] = None"
    by code_simp
  from build_twice_same_output [OF a b] a b c d show ?thesis by blast
qed

end
